theory Spec2Isabelle
  imports Main
begin

section \<open>JavaScript strings\<close>

text \<open>
  A JavaScript string is a sequence of UTF-16 code units; \<open>trim\<close>, \<open>split\<close>, \<open>includes\<close>
  and the regular expressions of \<open>formatAnswer\<close> (none has the \<open>u\<close> flag) all work on code
  units. A code unit is modelled as a natural number, so that the bullet U+2022 and the
  non-ASCII white space of \<open>\s\<close> are single elements, as they are for the program.
\<close>

type_synonym jsstring = "nat list"

definition js :: "string \<Rightarrow> jsstring" where
  "js s = map of_char s"

text \<open>The class \<open>\s\<close>, which is also what \<open>String.prototype.trim\<close> removes: WhiteSpace and
  LineTerminator of ECMAScript.\<close>

definition isWhiteSpace :: "nat \<Rightarrow> bool" where
  "isWhiteSpace c =
     (c = 9 \<or> c = 10 \<or> c = 11 \<or> c = 12 \<or> c = 13 \<or> c = 32 \<or> c = 160 \<or> c = 5760
      \<or> (8192 \<le> c \<and> c \<le> 8202) \<or> c = 8232 \<or> c = 8233 \<or> c = 8239 \<or> c = 8287
      \<or> c = 12288 \<or> c = 65279)"

text \<open>The code units that \<open>.\<close> does not match (no \<open>s\<close> flag).\<close>

definition isLineTerminator :: "nat \<Rightarrow> bool" where
  "isLineTerminator c = (c = 10 \<or> c = 13 \<or> c = 8232 \<or> c = 8233)"

definition isDigit :: "nat \<Rightarrow> bool" where
  "isDigit c = (48 \<le> c \<and> c \<le> 57)"

text \<open>The class \<open>[\*\-\<bullet>]\<close> of the bullet expressions: \<open>*\<close>, \<open>-\<close> and U+2022.\<close>

definition isBulletChar :: "nat \<Rightarrow> bool" where
  "isBulletChar c = (c = 42 \<or> c = 45 \<or> c = 8226)"

definition trim :: "jsstring \<Rightarrow> jsstring" where
  "trim s = rev (dropWhile isWhiteSpace (rev (dropWhile isWhiteSpace s)))"

fun startsWith :: "jsstring \<Rightarrow> jsstring \<Rightarrow> bool" where
  "startsWith s [] = True"
| "startsWith [] (p # ps) = False"
| "startsWith (c # cs) (p # ps) = (c = p \<and> startsWith cs ps)"

fun includes_str :: "jsstring \<Rightarrow> jsstring \<Rightarrow> bool" where
  "includes_str [] p = (p = [])"
| "includes_str (c # cs) p = (startsWith (c # cs) p \<or> includes_str cs p)"

text \<open>\<open>s.split('\n')\<close>: the pieces between the separators; the empty string gives one
  empty piece.\<close>

fun split_on :: "nat \<Rightarrow> jsstring \<Rightarrow> jsstring list" where
  "split_on d [] = [[]]"
| "split_on d (c # cs) =
     (if c = d then [] # split_on d cs
      else (case split_on d cs of
              [] \<Rightarrow> [[c]]
            | x # xs \<Rightarrow> (c # x) # xs))"

fun join_sp :: "jsstring list \<Rightarrow> jsstring" where
  "join_sp [] = []"
| "join_sp [x] = x"
| "join_sp (x # y # ys) = x @ [32] @ join_sp (y # ys)"

section \<open>The regular expressions of formatAnswer\<close>

text \<open>
  Each matcher is anchored at the start of its argument and follows the backtracking
  order of the expression: a greedy quantifier first tries to take one more code unit and
  falls back to the rest of the expression where that fails.
\<close>

text \<open>\<open>\s*\n\<close>; the result is the input left after the match.\<close>

fun re_ws_star_nl :: "jsstring \<Rightarrow> jsstring option" where
  "re_ws_star_nl [] = None"
| "re_ws_star_nl (c # cs) =
     (if isWhiteSpace c then
        (case re_ws_star_nl cs of
           Some r \<Rightarrow> Some r
         | None \<Rightarrow> if c = 10 then Some cs else None)
      else None)"

text \<open>\<open>/\n\s*\n/\<close> at the start of the input.\<close>

fun re_blank :: "jsstring \<Rightarrow> jsstring option" where
  "re_blank [] = None"
| "re_blank (c # cs) = (if c = 10 then re_ws_star_nl cs else None)"

text \<open>\<open>[^*]+\*\*\<close>; the result is the text taken by \<open>[^*]+\<close> and the input left after the
  match.\<close>

fun re_inner_close :: "jsstring \<Rightarrow> (jsstring \<times> jsstring) option" where
  "re_inner_close [] = None"
| "re_inner_close (c # cs) =
     (if c = 42 then None
      else (case re_inner_close cs of
              Some (g, r) \<Rightarrow> Some (c # g, r)
            | None \<Rightarrow> (case cs of
                         x # y # r \<Rightarrow> if x = 42 \<and> y = 42 then Some ([c], r) else None
                       | _ \<Rightarrow> None)))"

text \<open>\<open>/\*\*([^*]+)\*\*/\<close> at the start of the input: group 1 and the input left.\<close>

fun re_header_at :: "jsstring \<Rightarrow> (jsstring \<times> jsstring) option" where
  "re_header_at (a # b # cs) = (if a = 42 \<and> b = 42 then re_inner_close cs else None)"
| "re_header_at _ = None"

text \<open>The leftmost match of \<open>/\*\*([^*]+)\*\*/\<close>, as \<open>match\<close> and \<open>replace\<close> find it: the
  text before the match, group 1, and the text after the match.\<close>

fun re_header :: "jsstring \<Rightarrow> (jsstring \<times> jsstring \<times> jsstring) option" where
  "re_header [] = None"
| "re_header (c # cs) =
     (case re_header_at (c # cs) of
        Some (g, r) \<Rightarrow> Some ([], g, r)
      | None \<Rightarrow> (case re_header cs of
                   Some (pre, g, r) \<Rightarrow> Some (c # pre, g, r)
                 | None \<Rightarrow> None))"

text \<open>\<open>(.+)\<close> at the end of an expression: at least one code unit that is no line
  terminator, then as many as follow.\<close>

fun re_dot_plus :: "jsstring \<Rightarrow> jsstring option" where
  "re_dot_plus [] = None"
| "re_dot_plus (c # cs) =
     (if isLineTerminator c then None
      else Some (c # takeWhile (\<lambda>x. \<not> isLineTerminator x) cs))"

text \<open>\<open>\s+\<close> followed by the end of the expression (\<open>cap = False\<close>) or by \<open>(.+)\<close>
  (\<open>cap = True\<close>); the result is group 1, empty where the expression has none.\<close>

fun re_ws_plus :: "bool \<Rightarrow> jsstring \<Rightarrow> jsstring option" where
  "re_ws_plus cap [] = None"
| "re_ws_plus cap (c # cs) =
     (if isWhiteSpace c then
        (case re_ws_plus cap cs of
           Some g \<Rightarrow> Some g
         | None \<Rightarrow> if cap then re_dot_plus cs else Some [])
      else None)"

text \<open>\<open>/^\s*[\*\-\<bullet>]\s+/\<close> and \<open>/^\s*[\*\-\<bullet>]\s+(.+)/\<close>. A white-space code unit is no
  bullet character, so giving back a code unit taken by \<open>\s*\<close> never helps.\<close>

fun re_bullet :: "bool \<Rightarrow> jsstring \<Rightarrow> jsstring option" where
  "re_bullet cap [] = None"
| "re_bullet cap (c # cs) =
     (if isWhiteSpace c then re_bullet cap cs
      else if isBulletChar c then re_ws_plus cap cs
      else None)"

text \<open>\<open>\d*\.\s+\<close> after a first digit, with or without \<open>(.+)\<close>. A digit is no dot, so
  giving back a digit taken by \<open>\d+\<close> never helps.\<close>

fun re_digits_dot :: "bool \<Rightarrow> jsstring \<Rightarrow> jsstring option" where
  "re_digits_dot cap [] = None"
| "re_digits_dot cap (c # cs) =
     (if isDigit c then re_digits_dot cap cs
      else if c = 46 then re_ws_plus cap cs
      else None)"

text \<open>\<open>/^\s*\d+\.\s+/\<close> and \<open>/^\s*\d+\.\s+(.+)/\<close>.\<close>

fun re_number :: "bool \<Rightarrow> jsstring \<Rightarrow> jsstring option" where
  "re_number cap [] = None"
| "re_number cap (c # cs) =
     (if isWhiteSpace c then re_number cap cs
      else if isDigit c then re_digits_dot cap cs
      else None)"

section \<open>formatAnswer\<close>

text \<open>\<open>cleanText.split(/\n\s*\n/)\<close>: the input is scanned from the left; where the
  expression matches, the piece read so far ends and the scan resumes after the match.\<close>

lemma re_ws_star_nl_shorter: "re_ws_star_nl s = Some r \<Longrightarrow> length r < length s"
proof (induction s arbitrary: r)
  case Nil
  then show ?case by simp
next
  case (Cons c cs)
  show ?case
  proof (cases "re_ws_star_nl cs")
    case None
    with Cons.prems show ?thesis by (simp split: if_splits)
  next
    case (Some r')
    with Cons.prems have "r = r'" by (simp split: if_splits)
    with Cons.IH [OF Some] show ?thesis by simp
  qed
qed

function split_sections :: "jsstring \<Rightarrow> jsstring list" where
  "split_sections [] = [[]]"
| "split_sections (c # cs) =
     (case re_blank (c # cs) of
        Some r \<Rightarrow> [] # split_sections r
      | None \<Rightarrow> (case split_sections cs of
                   [] \<Rightarrow> [[c]]
                 | x # xs \<Rightarrow> (c # x) # xs))"
  by pat_completeness auto
termination
  by (relation "measure length") (auto split: if_splits dest: re_ws_star_nl_shorter)

text \<open>The elements \<open>formatAnswer\<close> builds. \<open>P\<close>, \<open>H3\<close> and \<open>LI\<close> carry their text;
  \<open>DIV\<close>, \<open>UL\<close> and \<open>OL\<close> carry their children. Keys and class names are left out.\<close>

datatype jsx = P jsstring | H3 jsstring | LI jsstring
  | DIV "jsx list" | UL "jsx list" | OL "jsx list"

text \<open>\<open>item.type === 'li'\<close>.\<close>

fun isLI :: "jsx \<Rightarrow> bool" where
  "isLI (LI t) = True"
| "isLI _ = False"

text \<open>The statement \<open>if (content.trim()) { items.push(<p>{content.trim()}</p>); content = '' }\<close>,
  on the pair of the array and the buffer.\<close>

definition flush :: "jsx list \<times> jsstring \<Rightarrow> jsx list \<times> jsstring" where
  "flush st =
     (if trim (snd st) \<noteq> [] then (fst st @ [P (trim (snd st))], []) else st)"

text \<open>The \<open>forEach\<close> of the header branch, on the pair (\<open>elements\<close>, \<open>currentContent\<close>).\<close>

fun header_lines :: "jsstring list \<Rightarrow> jsx list \<times> jsstring \<Rightarrow> jsx list \<times> jsstring" where
  "header_lines [] st = st"
| "header_lines (line # rest) st =
     (if includes_str line (js ''**'') then
        (case re_header line of
           Some (pre, g, post) \<Rightarrow>
             (let afterHeader = trim (pre @ post)
              in header_lines rest
                   (fst (flush st) @ [H3 g],
                    if afterHeader \<noteq> [] then snd (flush st) @ afterHeader @ js '' ''
                    else snd (flush st)))
         | None \<Rightarrow> header_lines rest (flush st))
      else header_lines rest (fst st, snd st @ line @ js '' ''))"

text \<open>The \<open>forEach\<close> of the bullet branch (\<open>re = re_bullet True\<close>) and of the numbered
  branch (\<open>re = re_number True\<close>), on the pair of the array and the buffer.\<close>

fun list_lines :: "(jsstring \<Rightarrow> jsstring option) \<Rightarrow> jsstring list \<Rightarrow>
    jsx list \<times> jsstring \<Rightarrow> jsx list \<times> jsstring" where
  "list_lines re [] st = st"
| "list_lines re (line # rest) st =
     (case re line of
        Some g \<Rightarrow> list_lines re rest (fst (flush st) @ [LI g], snd (flush st))
      | None \<Rightarrow> list_lines re rest (fst st, snd st @ line @ js '' ''))"

text \<open>The \<open>div\<close> a list branch returns: the elements that are no \<open>li\<close> in an inner
  \<open>div\<close> if there are any, then the \<open>li\<close> elements in a list if there are any.\<close>

definition list_div :: "(jsx list \<Rightarrow> jsx) \<Rightarrow> jsx list \<Rightarrow> jsx" where
  "list_div lst items =
     DIV ((if filter (\<lambda>item. \<not> isLI item) items \<noteq> []
           then [DIV (filter (\<lambda>item. \<not> isLI item) items)] else [])
          @ (if filter isLI items \<noteq> [] then [lst (filter isLI items)] else []))"

text \<open>The callback of \<open>sections.map\<close>; \<open>None\<close> is \<open>null\<close>.\<close>

text \<open>\<open>section.split('\n').map(line => line.trim()).filter(line => line)\<close>.\<close>

definition section_lines :: "jsstring \<Rightarrow> jsstring list" where
  "section_lines section = filter (\<lambda>line. line \<noteq> []) (map trim (split_on 10 section))"

definition formatSection :: "jsstring \<Rightarrow> jsx option" where
  "formatSection section =
     (let lines = section_lines section
      in if lines = [] then None
         else if includes_str section (js ''**'') then
           Some (DIV (fst (flush (header_lines lines ([], [])))))
         else if list_ex (\<lambda>line. re_bullet False line \<noteq> None) lines then
           Some (list_div UL (fst (flush (list_lines (re_bullet True) lines ([], [])))))
         else if list_ex (\<lambda>line. re_number False line \<noteq> None) lines then
           Some (list_div OL (fst (flush (list_lines (re_number True) lines ([], [])))))
         else Some (P (join_sp lines)))"

text \<open>\<open>text.replace(/\*\*/g, '**')\<close> puts back what it takes out, so \<open>cleanText\<close> is the
  trimmed text.\<close>

definition formatAnswer :: "jsstring \<Rightarrow> jsx option list" where
  "formatAnswer text =
     (let cleanText = trim text;
          sections = filter (\<lambda>s. trim s \<noteq> []) (split_sections cleanText)
      in map formatSection sections)"

section \<open>Display blocks\<close>

text \<open>
  The specification describes the result of the formatter as a sequence of display
  blocks. The rendered elements are read as such a sequence: a \<open>p\<close> is a paragraph, an
  \<open>h3\<close> a heading, a \<open>ul\<close> or \<open>ol\<close> a list of the texts of its items, a \<open>div\<close> the
  blocks of its children in order, and \<open>null\<close> nothing.
\<close>

datatype DisplayBlock = Heading jsstring | Paragraph jsstring
  | BulletList "jsstring list" | NumberedList "jsstring list"

fun text_of :: "jsx \<Rightarrow> jsstring" where
  "text_of (P t) = t"
| "text_of (H3 t) = t"
| "text_of (LI t) = t"
| "text_of _ = []"

fun blocks :: "jsx \<Rightarrow> DisplayBlock list" where
  "blocks (P t) = [Paragraph t]"
| "blocks (H3 t) = [Heading t]"
| "blocks (LI t) = []"
| "blocks (DIV cs) = concat (map blocks cs)"
| "blocks (UL cs) = [BulletList (map text_of cs)]"
| "blocks (OL cs) = [NumberedList (map text_of cs)]"

definition section_blocks :: "jsx option \<Rightarrow> DisplayBlock list" where
  "section_blocks r = (case r of None \<Rightarrow> [] | Some e \<Rightarrow> blocks e)"

definition format :: "jsstring \<Rightarrow> DisplayBlock list" where
  "format raw = concat (map section_blocks (formatAnswer raw))"

section \<open>The API client\<close>

text \<open>The interfaces of \<open>lib/api.ts\<close> and the browser's \<open>File\<close>. A field whose name several
  interfaces share, or that HOL already uses, carries a prefix.\<close>

record File =
  file_name :: jsstring
  file_type :: jsstring
  file_size :: nat

record ProcessRequest =
  file_path :: jsstring
  req_filename :: jsstring
  use_handwriting_ocr :: bool

record ProcessResponse =
  pr_success :: bool
  pr_message :: jsstring
  pr_filename :: jsstring
  chunks_created :: int
  processing_method :: jsstring
  total_characters :: "int option"

record QueryRequest =
  query :: jsstring
  n_results :: "int option"

record QueryResponse =
  qr_success :: bool
  qr_query :: jsstring
  answer :: jsstring
  retrieved_documents :: "jsstring list"
  relevant_document_ids :: "int list"
  context_used :: jsstring

record StatusResponse =
  st_success :: bool
  document_count :: int
  database_status :: jsstring
  st_message :: jsstring

record ResetResponse =
  rs_success :: bool
  rs_message :: jsstring
  actions_performed :: "jsstring list"

record UploadResponse =
  up_message :: jsstring
  up_filename :: jsstring
  up_temp_path :: jsstring
  up_size :: nat

text \<open>What a rejected promise carries: \<open>new Error(message)\<close>.\<close>

datatype error = Error jsstring

text \<open>A request issued to \<open>apiService\<close>.\<close>

datatype api_call = UploadFile File | ProcessDocument ProcessRequest
  | QueryDocuments QueryRequest | GetStatus | ResetDatabase

text \<open>
  What lies outside the component: the backend behind \<open>apiService\<close>, \<open>Math.random\<close> and
  the clock. The answer to a request depends on the request and on the number \<open>n\<close> of
  requests issued before it in the session, so that the same request can be answered
  differently at different times; \<open>Inl\<close> is a rejected promise (a transport or HTTP
  error). \<open>randomId b n\<close> is the value of \<open>Math.random().toString(36).substring(2, 9)\<close> and
  \<open>now b n\<close> that of \<open>new Date()\<close> when they are read after that request; the program
  reads each at most once between two requests, so successive reads are independent.
\<close>

record backend =
  uploadFile :: "nat \<Rightarrow> File \<Rightarrow> error + UploadResponse"
  processDocument :: "nat \<Rightarrow> ProcessRequest \<Rightarrow> error + ProcessResponse"
  queryDocuments :: "nat \<Rightarrow> QueryRequest \<Rightarrow> error + QueryResponse"
  getStatus :: "nat \<Rightarrow> error + StatusResponse"
  resetDatabase :: "nat \<Rightarrow> error + ResetResponse"
  randomId :: "nat \<Rightarrow> jsstring"
  now :: "nat \<Rightarrow> nat"

section \<open>Session state\<close>

record Document =
  doc_id :: jsstring
  doc_name :: jsstring
  doc_size :: nat
  uploadedAt :: nat
  temp_path :: "jsstring option"
  processed :: "bool option"

record QnAItem =
  qna_id :: jsstring
  qna_question :: jsstring
  qna_answer :: jsstring
  timestamp :: nat

record DatabaseStatus =
  count :: int
  status :: jsstring

text \<open>The state of \<open>MainApp\<close>, with what it does to the outside made part of it: \<open>calls\<close> is
  the sequence of requests issued to \<open>apiService\<close>, \<open>console\<close> the arguments of the calls
  of \<open>console.error\<close>, both oldest first.\<close>

record world =
  documents :: "Document list"
  question :: jsstring
  qnaHistory :: "QnAItem list"
  isProcessing :: bool
  enableHandwriting :: bool
  dragActive :: bool
  currentAnswer :: jsstring
  isAsking :: bool
  databaseStatus :: DatabaseStatus
  isUploading :: bool
  calls :: "api_call list"
  console :: "(jsstring \<times> error) list"

definition initial :: world where
  "initial =
     \<lparr>documents = [], question = [], qnaHistory = [], isProcessing = False,
      enableHandwriting = False, dragActive = False, currentAnswer = [], isAsking = False,
      databaseStatus = \<lparr>count = 0, status = js ''unknown''\<rparr>, isUploading = False,
      calls = [], console = []\<rparr>"

text \<open>Truthiness of an optional string and of an optional boolean.\<close>

definition truthy_str :: "jsstring option \<Rightarrow> bool" where
  "truthy_str v = (case v of None \<Rightarrow> False | Some s \<Rightarrow> s \<noteq> [])"

definition truthy_bool :: "bool option \<Rightarrow> bool" where
  "truthy_bool v = (case v of None \<Rightarrow> False | Some b \<Rightarrow> b)"

text \<open>\<open>await apiService.getStatus()\<close> followed by \<open>setDatabaseStatus\<close>, as \<open>handleProcess\<close>,
  \<open>handleResetDatabase\<close> and the mount effect do it; \<open>Inl\<close> is the exception thrown, with
  the state in which it is thrown.\<close>

definition refreshStatus :: "backend \<Rightarrow> world \<Rightarrow> (error \<times> world) + world" where
  "refreshStatus b w =
     (let w1 = w\<lparr>calls := calls w @ [GetStatus]\<rparr>
      in case getStatus b (length (calls w)) of
           Inl e \<Rightarrow> Inl (e, w1)
         | Inr st \<Rightarrow> Inr (w1\<lparr>databaseStatus :=
                      \<lparr>count = document_count st, status = database_status st\<rparr>\<rparr>))"

text \<open>\<open>catch (error) { console.error(label, error) }\<close>.\<close>

definition catch_log :: "jsstring \<Rightarrow> (error \<times> world) + world \<Rightarrow> world" where
  "catch_log label r =
     (case r of
        Inl (e, w) \<Rightarrow> w\<lparr>console := console w @ [(label, e)]\<rparr>
      | Inr w \<Rightarrow> w)"

text \<open>The effect run on mount.\<close>

definition fetchStatus :: "backend \<Rightarrow> world \<Rightarrow> world" where
  "fetchStatus b w = catch_log (js ''Failed to fetch database status:'') (refreshStatus b w)"

subsection \<open>handleFiles\<close>

definition validFile :: "File \<Rightarrow> bool" where
  "validFile file =
     (file_type file = js ''application/pdf'' \<and> file_size file \<le> 200 * 1024 * 1024)"

text \<open>The loop over \<open>validFiles\<close>; a failed upload is logged and the loop goes on.\<close>

fun upload_loop :: "backend \<Rightarrow> File list \<Rightarrow> world \<Rightarrow> world" where
  "upload_loop b [] w = w"
| "upload_loop b (file # files) w =
     (let n = length (calls w);
          w1 = w\<lparr>calls := calls w @ [UploadFile file]\<rparr>
      in case uploadFile b n file of
           Inr uploadResponse \<Rightarrow>
             upload_loop b files
               (w1\<lparr>documents := documents w1 @
                  [\<lparr>doc_id = randomId b n, doc_name = file_name file,
                    doc_size = file_size file, uploadedAt = now b n,
                    temp_path = Some (up_temp_path uploadResponse),
                    processed = Some False\<rparr>]\<rparr>)
         | Inl e \<Rightarrow>
             upload_loop b files
               (w1\<lparr>console := console w1 @
                  [(js ''Failed to upload '' @ file_name file @ js '':'', e)]\<rparr>))"

definition handleFiles :: "backend \<Rightarrow> File list \<Rightarrow> world \<Rightarrow> world" where
  "handleFiles b files w =
     (let validFiles = filter validFile files;
          w1 = w\<lparr>isUploading := True\<rparr>;
          w2 = upload_loop b validFiles w1
      in w2\<lparr>isUploading := False\<rparr>)"

subsection \<open>handleProcess\<close>

text \<open>\<open>setDocuments(prev => prev.map(d => d.id === doc.id ? { ...d, processed: true } : d))\<close>.\<close>

definition markProcessed :: "Document \<Rightarrow> Document list \<Rightarrow> Document list" where
  "markProcessed doc prev =
     map (\<lambda>d. if doc_id d = doc_id doc then d\<lparr>processed := Some True\<rparr> else d) prev"

text \<open>The argument of \<open>apiService.processDocument\<close> for a document with the temporary
  path \<open>path\<close>.\<close>

definition processRequest :: "bool \<Rightarrow> jsstring \<Rightarrow> Document \<Rightarrow> ProcessRequest" where
  "processRequest hw path doc =
     \<lparr>file_path = path, req_filename = doc_name doc, use_handwriting_ocr = hw\<rparr>"

text \<open>The loop over \<open>unprocessedDocs\<close>, with the handwriting flag of the render that
  started it; a rejected request leaves the loop.\<close>

fun process_loop :: "backend \<Rightarrow> bool \<Rightarrow> Document list \<Rightarrow> world \<Rightarrow> (error \<times> world) + world" where
  "process_loop b hw [] w = Inr w"
| "process_loop b hw (doc # docs) w =
     (case temp_path doc of
        None \<Rightarrow> process_loop b hw docs w
      | Some path \<Rightarrow>
          if path = [] then process_loop b hw docs w
          else
            (let req = processRequest hw path doc;
                 w1 = w\<lparr>calls := calls w @ [ProcessDocument req]\<rparr>
             in case processDocument b (length (calls w)) req of
                  Inl e \<Rightarrow> Inl (e, w1)
                | Inr processResponse \<Rightarrow>
                    if pr_success processResponse
                    then process_loop b hw docs
                           (w1\<lparr>documents := markProcessed doc (documents w1)\<rparr>)
                    else process_loop b hw docs w1))"

definition unprocessedDocs :: "world \<Rightarrow> Document list" where
  "unprocessedDocs w =
     filter (\<lambda>doc. \<not> truthy_bool (processed doc) \<and> truthy_str (temp_path doc)) (documents w)"

text \<open>The \<open>try\<close> block of \<open>handleProcess\<close>.\<close>

definition process_try :: "backend \<Rightarrow> world \<Rightarrow> (error \<times> world) + world" where
  "process_try b w =
     (case process_loop b (enableHandwriting w) (unprocessedDocs w) w of
        Inl ew \<Rightarrow> Inl ew
      | Inr w1 \<Rightarrow> refreshStatus b w1)"

definition handleProcess :: "backend \<Rightarrow> world \<Rightarrow> world" where
  "handleProcess b w =
     (let w1 = w\<lparr>isProcessing := True\<rparr>;
          w2 = catch_log (js ''Processing failed:'') (process_try b w1)
      in w2\<lparr>isProcessing := False\<rparr>)"

subsection \<open>handleResetDatabase\<close>

text \<open>The \<open>try\<close> block of \<open>handleResetDatabase\<close>.\<close>

definition reset_try :: "backend \<Rightarrow> world \<Rightarrow> (error \<times> world) + world" where
  "reset_try b w =
     (let w1 = w\<lparr>calls := calls w @ [ResetDatabase]\<rparr>
      in case resetDatabase b (length (calls w)) of
           Inl e \<Rightarrow> Inl (e, w1)
         | Inr resetResponse \<Rightarrow>
             if rs_success resetResponse
             then refreshStatus b (w1\<lparr>documents := [], qnaHistory := [], currentAnswer := []\<rparr>)
             else Inr w1)"

definition handleResetDatabase :: "backend \<Rightarrow> world \<Rightarrow> world" where
  "handleResetDatabase b w = catch_log (js ''Reset failed:'') (reset_try b w)"

subsection \<open>handleAsk\<close>

definition notFoundMessage :: jsstring where
  "notFoundMessage = js ''Sorry, I couldn'' @ [39] @ js ''t find relevant information in your documents.''"

definition errorMessage :: jsstring where
  "errorMessage = js ''An error occurred while processing your question. Please try again.''"

text \<open>The \<open>try\<close> block of \<open>handleAsk\<close> for the question \<open>newQuestion\<close>.\<close>

definition ask_try :: "backend \<Rightarrow> jsstring \<Rightarrow> world \<Rightarrow> (error \<times> world) + world" where
  "ask_try b newQuestion w =
     (let n = length (calls w);
          req = \<lparr>query = newQuestion, n_results = Some 10\<rparr>;
          w1 = w\<lparr>calls := calls w @ [QueryDocuments req]\<rparr>
      in case queryDocuments b n req of
           Inl e \<Rightarrow> Inl (e, w1)
         | Inr queryResponse \<Rightarrow>
             if qr_success queryResponse
             then Inr (w1\<lparr>currentAnswer := answer queryResponse,
                          qnaHistory :=
                            \<lparr>qna_id = randomId b n, qna_question = newQuestion,
                             qna_answer = answer queryResponse, timestamp = now b n\<rparr>
                            # qnaHistory w1\<rparr>)
             else Inr (w1\<lparr>currentAnswer := notFoundMessage\<rparr>))"

definition handleAsk :: "backend \<Rightarrow> world \<Rightarrow> world" where
  "handleAsk b w =
     (if trim (question w) = [] then w
      else
        (let w1 = w\<lparr>isAsking := True\<rparr>;
             newQuestion = question w;
             w2 = w1\<lparr>question := []\<rparr>;
             w3 = (case ask_try b newQuestion w2 of
                     Inl (e, w') \<Rightarrow>
                       w'\<lparr>console := console w' @ [(js ''Query failed:'', e)],
                          currentAnswer := errorMessage\<rparr>
                   | Inr w' \<Rightarrow> w')
         in w3\<lparr>isAsking := False\<rparr>))"

subsection \<open>Reachable states\<close>

text \<open>The states the session reaches from the initial one by the mount effect, the four
  operations and the edits of the question field and of the handwriting checkbox, with
  any backend.\<close>

inductive reachable :: "world \<Rightarrow> bool" where
  init: "reachable initial"
| mount: "reachable w \<Longrightarrow> reachable (fetchStatus b w)"
| addFiles: "reachable w \<Longrightarrow> reachable (handleFiles b files w)"
| processAll: "reachable w \<Longrightarrow> reachable (handleProcess b w)"
| ask: "reachable w \<Longrightarrow> reachable (handleAsk b w)"
| reset: "reachable w \<Longrightarrow> reachable (handleResetDatabase b w)"
| setQuestion: "reachable w \<Longrightarrow> reachable (w\<lparr>question := q\<rparr>)"
| setEnableHandwriting: "reachable w \<Longrightarrow> reachable (w\<lparr>enableHandwriting := h\<rparr>)"

section \<open>Fixtures\<close>

text \<open>The three files of the file-filtering example: a PDF of 10 MiB, a text file of 5 MiB
  and a PDF of 250 MiB.\<close>

definition pdf_10MB :: File where
  "pdf_10MB = \<lparr>file_name = js ''a.pdf'', file_type = js ''application/pdf'',
                 file_size = 10 * 1024 * 1024\<rparr>"

definition txt_5MB :: File where
  "txt_5MB = \<lparr>file_name = js ''b.txt'', file_type = js ''text/plain'',
                file_size = 5 * 1024 * 1024\<rparr>"

definition pdf_250MB :: File where
  "pdf_250MB = \<lparr>file_name = js ''c.pdf'', file_type = js ''application/pdf'',
                  file_size = 250 * 1024 * 1024\<rparr>"

definition pdf_1MB :: File where
  "pdf_1MB = \<lparr>file_name = js ''d.pdf'', file_type = js ''application/pdf'',
                file_size = 1024 * 1024\<rparr>"

text \<open>A backend that accepts every request, draws the identifier \<open>[n]\<close> after \<open>n\<close> requests,
  and answers every question with \<open>42\<close>.\<close>

definition ok_backend :: backend where
  "ok_backend =
     \<lparr>uploadFile = (\<lambda>n file. Inr \<lparr>up_message = js ''uploaded'', up_filename = file_name file,
                       up_temp_path = js ''/tmp/'' @ file_name file, up_size = file_size file\<rparr>),
      processDocument = (\<lambda>n req. Inr \<lparr>pr_success = True, pr_message = js ''done'',
                       pr_filename = req_filename req, chunks_created = 1,
                       processing_method = js ''text'', total_characters = None\<rparr>),
      queryDocuments = (\<lambda>n req. Inr \<lparr>qr_success = True, qr_query = query req,
                       answer = js ''42'', retrieved_documents = [],
                       relevant_document_ids = [], context_used = []\<rparr>),
      getStatus = (\<lambda>n. Inr \<lparr>st_success = True, document_count = 1,
                       database_status = js ''ready'', st_message = []\<rparr>),
      resetDatabase = (\<lambda>n. Inr \<lparr>rs_success = True, rs_message = [], actions_performed = []\<rparr>),
      randomId = (\<lambda>n. [n]),
      now = (\<lambda>n. n)\<rparr>"

text \<open>The same backend with every process request rejected (HTTP 500).\<close>

definition rejecting_backend :: backend where
  "rejecting_backend =
     ok_backend\<lparr>processDocument := (\<lambda>n req. Inl (Error (js ''HTTP error! status: 500'')))\<rparr>"

text \<open>The same backend with every process request answered by \<open>success: false\<close>.\<close>

definition declining_backend :: backend where
  "declining_backend =
     ok_backend\<lparr>processDocument := (\<lambda>n req. Inr \<lparr>pr_success = False, pr_message = js ''no text'',
                       pr_filename = req_filename req, chunks_created = 0,
                       processing_method = js ''text'', total_characters = None\<rparr>)\<rparr>"

text \<open>The same backend with every reset request rejected.\<close>

definition unreachable_backend :: backend where
  "unreachable_backend =
     ok_backend\<lparr>resetDatabase := (\<lambda>n. Inl (Error (js ''Failed to fetch'')))\<rparr>"

text \<open>The same backend where \<open>Math.random\<close> gives the same identifier twice.\<close>

definition colliding_backend :: backend where
  "colliding_backend = ok_backend\<lparr>randomId := (\<lambda>n. js ''k3j9x2a'')\<rparr>"

text \<open>The documents of the two PDF files once uploaded, and the session that holds them.\<close>

definition doc_a :: Document where
  "doc_a = \<lparr>doc_id = [0], doc_name = js ''a.pdf'', doc_size = 10485760, uploadedAt = 0,
            temp_path = Some (js ''/tmp/a.pdf''), processed = Some False\<rparr>"

definition doc_d :: Document where
  "doc_d = \<lparr>doc_id = [1], doc_name = js ''d.pdf'', doc_size = 1048576, uploadedAt = 1,
            temp_path = Some (js ''/tmp/d.pdf''), processed = Some False\<rparr>"

definition two_uploaded :: world where
  "two_uploaded =
     initial\<lparr>documents := [doc_a, doc_d], calls := [UploadFile pdf_10MB, UploadFile pdf_1MB]\<rparr>"

lemmas fixture_defs = ok_backend_def rejecting_backend_def declining_backend_def
  unreachable_backend_def colliding_backend_def
  pdf_10MB_def txt_5MB_def pdf_250MB_def pdf_1MB_def doc_a_def doc_d_def two_uploaded_def
  initial_def

lemmas session_defs = handleFiles_def handleProcess_def process_try_def catch_log_def
  refreshStatus_def unprocessedDocs_def truthy_bool_def truthy_str_def validFile_def
  processRequest_def markProcessed_def handleResetDatabase_def reset_try_def
  handleAsk_def ask_try_def Let_def

lemma two_uploaded_run: "handleFiles b [pdf_10MB, txt_5MB, pdf_1MB] initial = two_uploaded"
  if "b = ok_backend \<or> b = rejecting_backend \<or> b = declining_backend"
  using that by (auto simp: session_defs fixture_defs js_def)

lemma two_uploaded_reachable: "reachable two_uploaded"
  using reachable.addFiles [OF reachable.init, of ok_backend "[pdf_10MB, txt_5MB, pdf_1MB]"]
  by (simp add: two_uploaded_run)

section \<open>addFiles: which files are uploaded\<close>

lemma calls_upload_loop: "calls (upload_loop b fs w) = calls w @ map UploadFile fs"
  by (induction fs arbitrary: w) (auto simp: Let_def split: sum.splits)

lemma filter_example_files: "filter validFile [pdf_10MB, txt_5MB, pdf_250MB] = [pdf_10MB]"
  by (simp add: validFile_def pdf_10MB_def txt_5MB_def pdf_250MB_def js_def)

text \<open>
  C8. \<open>handleFiles\<close> keeps a file exactly when its MIME type is \<open>application/pdf\<close> and its
  size is at most 209715200 bytes (200 MiB). The files it does not keep have no effect at
  all: the run is the run on the kept files alone, so nothing is requested and nothing is
  logged for them, and the upload requests issued are those of the kept files, in input
  order. Of a PDF of 10 MiB, a text file of 5 MiB and a PDF of 250 MiB, only the first
  is uploaded.
\<close>

theorem addFiles_uploads_exactly_valid_files:
  "validFile f = (file_type f = js ''application/pdf'' \<and> file_size f \<le> 209715200)
   \<and> handleFiles b files w = handleFiles b (filter validFile files) w
   \<and> calls (handleFiles b files w) = calls w @ map UploadFile (filter validFile files)
   \<and> calls (handleFiles b [pdf_10MB, txt_5MB, pdf_250MB] w) = calls w @ [UploadFile pdf_10MB]"
proof -
  have 0: "validFile f = (file_type f = js ''application/pdf'' \<and> file_size f \<le> 209715200)"
    by (simp add: validFile_def)
  have 1: "handleFiles b files w = handleFiles b (filter validFile files) w"
    by (simp add: handleFiles_def)
  have 2: "calls (handleFiles b fs w) = calls w @ map UploadFile (filter validFile fs)" for fs
    by (simp add: handleFiles_def calls_upload_loop)
  have 3: "calls (handleFiles b [pdf_10MB, txt_5MB, pdf_250MB] w) = calls w @ [UploadFile pdf_10MB]"
    unfolding 2 filter_example_files by simp
  from 0 1 2 3 show ?thesis by blast
qed

section \<open>The processing loop\<close>

text \<open>The state in which the loop ends, whether it returns or throws.\<close>

definition outcome :: "(error \<times> world) + world \<Rightarrow> world" where
  "outcome r = (case r of Inl (e, w) \<Rightarrow> w | Inr w \<Rightarrow> w)"

text \<open>The requests the loop issues over \<open>docs\<close> when none is rejected: one for each document
  with a non-empty temporary path, in order.\<close>

definition loop_requests :: "bool \<Rightarrow> Document list \<Rightarrow> api_call list" where
  "loop_requests hw docs =
     concat (map (\<lambda>doc. case temp_path doc of
                          None \<Rightarrow> []
                        | Some path \<Rightarrow>
                            if path = [] then []
                            else [ProcessDocument (processRequest hw path doc)]) docs)"

lemma process_loop_append:
  "process_loop b hw (pre @ rest) w =
     (case process_loop b hw pre w of Inl x \<Rightarrow> Inl x | Inr w1 \<Rightarrow> process_loop b hw rest w1)"
  by (induction pre arbitrary: w) (auto simp: Let_def split: option.splits sum.splits)

lemma unprocessed_has_path:
  "doc \<in> set (unprocessedDocs w) \<Longrightarrow> \<exists>path. temp_path doc = Some path \<and> path \<noteq> []"
  by (auto simp: unprocessedDocs_def truthy_str_def split: option.splits)

text \<open>What every step of the loop preserves holds where the loop ends.\<close>

lemma process_loop_invariant:
  assumes "Q w"
    and call: "\<And>w req. Q w \<Longrightarrow> Q (w\<lparr>calls := calls w @ [ProcessDocument req]\<rparr>)"
    and mark: "\<And>w doc. Q w \<Longrightarrow> Q (w\<lparr>documents := markProcessed doc (documents w)\<rparr>)"
  shows "Q (outcome (process_loop b hw docs w))"
  using assms(1)
proof (induction docs arbitrary: w)
  case Nil
  then show ?case by (simp add: outcome_def)
next
  case (Cons doc docs)
  show ?case
  proof (cases "truthy_str (temp_path doc)")
    case False
    then have "process_loop b hw (doc # docs) w = process_loop b hw docs w"
      by (auto simp: truthy_str_def split: option.splits)
    with Cons show ?thesis by simp
  next
    case True
    then obtain path where p: "temp_path doc = Some path" "path \<noteq> []"
      by (auto simp: truthy_str_def split: option.splits)
    let ?req = "processRequest hw path doc"
    let ?w1 = "w\<lparr>calls := calls w @ [ProcessDocument ?req]\<rparr>"
    have Qw1: "Q ?w1" using Cons.prems by (rule call)
    show ?thesis
    proof (cases "processDocument b (length (calls w)) ?req")
      case (Inl e)
      with p Qw1 show ?thesis by (simp add: Let_def outcome_def)
    next
      case (Inr r)
      show ?thesis
      proof (cases "pr_success r")
        case True
        have "Q (outcome (process_loop b hw docs
                (?w1\<lparr>documents := markProcessed doc (documents ?w1)\<rparr>)))"
          by (rule Cons.IH) (rule mark [OF Qw1])
        with p Inr True show ?thesis by (simp add: Let_def)
      next
        case False
        have "Q (outcome (process_loop b hw docs ?w1))" by (rule Cons.IH) (rule Qw1)
        with p Inr False show ?thesis by (simp add: Let_def)
      qed
    qed
  qed
qed

text \<open>The loop issues process requests only, and touches neither the status nor the log.\<close>

definition loop_effect :: "world \<Rightarrow> world \<Rightarrow> bool" where
  "loop_effect w w' =
     (\<exists>cs. calls w' = calls w @ cs \<and> GetStatus \<notin> set cs
        \<and> databaseStatus w' = databaseStatus w \<and> console w' = console w)"

lemma process_loop_effect: "loop_effect w (outcome (process_loop b hw docs w))"
proof (rule process_loop_invariant)
  show "loop_effect w w" by (simp add: loop_effect_def)
next
  fix w' req
  assume "loop_effect w w'"
  then show "loop_effect w (w'\<lparr>calls := calls w' @ [ProcessDocument req]\<rparr>)"
    by (auto simp: loop_effect_def)
next
  fix w' doc
  assume "loop_effect w w'"
  then show "loop_effect w (w'\<lparr>documents := markProcessed doc (documents w')\<rparr>)"
    by (auto simp: loop_effect_def)
qed

lemma process_loop_no_throw:
  assumes "\<And>n req. \<exists>r. processDocument b n req = Inr r"
  shows "\<exists>w'. process_loop b hw docs w = Inr w' \<and> calls w' = calls w @ loop_requests hw docs"
proof (induction docs arbitrary: w)
  case Nil
  show ?case by (simp add: loop_requests_def)
next
  case (Cons doc docs)
  show ?case
  proof (cases "truthy_str (temp_path doc)")
    case False
    then have "process_loop b hw (doc # docs) w = process_loop b hw docs w"
      by (auto simp: truthy_str_def split: option.splits)
    moreover have "loop_requests hw (doc # docs) = loop_requests hw docs"
      using False by (auto simp: loop_requests_def truthy_str_def split: option.splits)
    ultimately show ?thesis using Cons.IH [of w] by simp
  next
    case True
    then obtain path where p: "temp_path doc = Some path" "path \<noteq> []"
      by (auto simp: truthy_str_def split: option.splits)
    let ?req = "processRequest hw path doc"
    let ?w1 = "w\<lparr>calls := calls w @ [ProcessDocument ?req]\<rparr>"
    obtain r where r: "processDocument b (length (calls w)) ?req = Inr r"
      using assms by blast
    have lr: "loop_requests hw (doc # docs) = ProcessDocument ?req # loop_requests hw docs"
      using p by (simp add: loop_requests_def)
    show ?thesis
    proof (cases "pr_success r")
      case True
      then have "process_loop b hw (doc # docs) w =
                 process_loop b hw docs (?w1\<lparr>documents := markProcessed doc (documents ?w1)\<rparr>)"
        using p r by (simp add: Let_def)
      then show ?thesis
        using Cons.IH [of "?w1\<lparr>documents := markProcessed doc (documents ?w1)\<rparr>"] lr by auto
    next
      case False
      then have "process_loop b hw (doc # docs) w = process_loop b hw docs ?w1"
        using p r by (simp add: Let_def)
      then show ?thesis using Cons.IH [of ?w1] lr by auto
    qed
  qed
qed

text \<open>Where the loop throws, the last request it issued is the one that was rejected.\<close>

lemma process_loop_throw:
  "process_loop b hw docs w = Inl (e, w') \<Longrightarrow>
     \<exists>req. calls w' = butlast (calls w') @ [ProcessDocument req]
       \<and> processDocument b (length (butlast (calls w'))) req = Inl e"
proof (induction docs arbitrary: w)
  case Nil
  then show ?case by simp
next
  case (Cons doc docs)
  show ?case
  proof (cases "truthy_str (temp_path doc)")
    case False
    then have "process_loop b hw (doc # docs) w = process_loop b hw docs w"
      by (auto simp: truthy_str_def split: option.splits)
    with Cons show ?thesis by simp
  next
    case True
    then obtain path where p: "temp_path doc = Some path" "path \<noteq> []"
      by (auto simp: truthy_str_def split: option.splits)
    let ?req = "processRequest hw path doc"
    let ?w1 = "w\<lparr>calls := calls w @ [ProcessDocument ?req]\<rparr>"
    show ?thesis
    proof (cases "processDocument b (length (calls w)) ?req")
      case (Inl e')
      with p Cons.prems have "e' = e" "w' = ?w1" by (simp_all add: Let_def)
      with Inl show ?thesis by auto
    next
      case (Inr r)
      show ?thesis
      proof (cases "pr_success r")
        case True
        with p Inr Cons.prems have "process_loop b hw docs
            (?w1\<lparr>documents := markProcessed doc (documents ?w1)\<rparr>) = Inl (e, w')"
          by (simp add: Let_def)
        then show ?thesis by (rule Cons.IH)
      next
        case False
        with p Inr Cons.prems have "process_loop b hw docs ?w1 = Inl (e, w')"
          by (simp add: Let_def)
        then show ?thesis by (rule Cons.IH)
      qed
    qed
  qed
qed

section \<open>processAll: a rejected request\<close>

text \<open>
  C7. When the process request of one unprocessed document is rejected, the requests of the
  documents before it having returned, \<open>handleProcess\<close> ends in the state the loop had
  reached, with that one request added, the error logged under \<open>Processing failed:\<close> and
  \<open>isProcessing\<close> cleared. The documents after it play no part in the result: no request is
  issued for them, and none for the status.
\<close>

theorem processAll_aborts_on_throw:
  assumes docs: "unprocessedDocs w = pre @ doc # post"
    and pre: "process_loop b (enableHandwriting w) pre (w\<lparr>isProcessing := True\<rparr>) = Inr w1"
    and path: "temp_path doc = Some path"
    and throws: "processDocument b (length (calls w1))
                   (processRequest (enableHandwriting w) path doc) = Inl e"
  shows "handleProcess b w =
           w1\<lparr>calls := calls w1 @ [ProcessDocument (processRequest (enableHandwriting w) path doc)],
              console := console w1 @ [(js ''Processing failed:'', e)],
              isProcessing := False\<rparr>"
proof -
  let ?req = "processRequest (enableHandwriting w) path doc"
  have "doc \<in> set (unprocessedDocs w)" using docs by simp
  with path have ne: "path \<noteq> []" by (auto dest: unprocessed_has_path)
  have "process_loop b (enableHandwriting w) (doc # post) w1 =
          Inl (e, w1\<lparr>calls := calls w1 @ [ProcessDocument ?req]\<rparr>)"
    using path ne throws by (simp add: Let_def)
  then have "process_loop b (enableHandwriting w) (unprocessedDocs w) (w\<lparr>isProcessing := True\<rparr>) =
          Inl (e, w1\<lparr>calls := calls w1 @ [ProcessDocument ?req]\<rparr>)"
    unfolding docs process_loop_append pre by simp
  then show ?thesis
    by (simp add: handleProcess_def process_try_def catch_log_def Let_def unprocessedDocs_def)
qed

theorem processAll_aborts_on_throw_witness:
  "unprocessedDocs two_uploaded = [doc_a, doc_d]
   \<and> handleProcess rejecting_backend two_uploaded =
       two_uploaded\<lparr>calls := calls two_uploaded @
           [ProcessDocument (processRequest False (js ''/tmp/a.pdf'') doc_a)],
         console := [(js ''Processing failed:'', Error (js ''HTTP error! status: 500''))]\<rparr>"
proof -
  have d: "unprocessedDocs two_uploaded = [] @ doc_a # [doc_d]"
    by (simp add: session_defs fixture_defs js_def)
  have l: "process_loop rejecting_backend (enableHandwriting two_uploaded) []
             (two_uploaded\<lparr>isProcessing := True\<rparr>) = Inr (two_uploaded\<lparr>isProcessing := True\<rparr>)"
    by simp
  have p: "temp_path doc_a = Some (js ''/tmp/a.pdf'')" by (simp add: doc_a_def)
  have t: "processDocument rejecting_backend (length (calls (two_uploaded\<lparr>isProcessing := True\<rparr>)))
             (processRequest (enableHandwriting two_uploaded) (js ''/tmp/a.pdf'') doc_a)
           = Inl (Error (js ''HTTP error! status: 500''))"
    by (simp add: fixture_defs)
  show ?thesis
    using d processAll_aborts_on_throw [OF d l p t]
    by (simp add: fixture_defs)
qed

section \<open>processAll: a response with success false\<close>

text \<open>
  C10. A process request that returns with \<open>success: false\<close> does not end the loop: the
  iteration changes nothing but the record of requests, so the document keeps
  \<open>processed = false\<close>, and the loop goes on with the documents that follow. If no process
  request is rejected the loop returns, having issued the request of every document
  with a temporary path, whatever the success flags. Where the loop ends early, the last
  request it issued was rejected.
\<close>

theorem processAll_continues_on_failure_flag:
  "(temp_path doc = Some path \<and> path \<noteq> []
      \<and> processDocument b (length (calls w)) (processRequest hw path doc) = Inr r
      \<and> \<not> pr_success r
    \<longrightarrow> process_loop b hw (doc # docs) w =
          process_loop b hw docs
            (w\<lparr>calls := calls w @ [ProcessDocument (processRequest hw path doc)]\<rparr>))
   \<and> ((\<forall>n req. \<exists>r. processDocument b n req = Inr r)
    \<longrightarrow> (\<exists>w'. process_loop b hw docs w = Inr w' \<and> calls w' = calls w @ loop_requests hw docs))
   \<and> (process_loop b hw docs w = Inl (e, w')
    \<longrightarrow> (\<exists>req. calls w' = butlast (calls w') @ [ProcessDocument req]
           \<and> processDocument b (length (butlast (calls w'))) req = Inl e))"
  using process_loop_no_throw [of b hw docs w] process_loop_throw [of b hw docs w e w']
  by (auto simp: Let_def)

theorem processAll_continues_on_failure_flag_witness:
  "process_loop declining_backend False [doc_a, doc_d] two_uploaded =
     Inr (two_uploaded\<lparr>calls := calls two_uploaded @
            [ProcessDocument (processRequest False (js ''/tmp/a.pdf'') doc_a),
             ProcessDocument (processRequest False (js ''/tmp/d.pdf'') doc_d)]\<rparr>)"
proof -
  let ?ra = "processRequest False (js ''/tmp/a.pdf'') doc_a"
  let ?rd = "processRequest False (js ''/tmp/d.pdf'') doc_d"
  let ?w1 = "two_uploaded\<lparr>calls := calls two_uploaded @ [ProcessDocument ?ra]\<rparr>"
  let ?no = "\<lparr>pr_success = False, pr_message = js ''no text'', pr_filename = js ''a.pdf'',
     chunks_created = 0, processing_method = js ''text'', total_characters = None\<rparr>"
  have a: "temp_path doc_a = Some (js ''/tmp/a.pdf'') \<and> js ''/tmp/a.pdf'' \<noteq> []
      \<and> processDocument declining_backend (length (calls two_uploaded)) ?ra = Inr ?no
      \<and> \<not> pr_success ?no"
    by (simp add: fixture_defs processRequest_def js_def)
  have 1: "process_loop declining_backend False (doc_a # [doc_d]) two_uploaded =
           process_loop declining_backend False [doc_d] ?w1"
    using a processAll_continues_on_failure_flag
             [of doc_a "js ''/tmp/a.pdf''" declining_backend two_uploaded False ?no "[doc_d]"]
    by blast
  have 2: "process_loop declining_backend False [doc_d] ?w1 =
           Inr (?w1\<lparr>calls := calls ?w1 @ [ProcessDocument ?rd]\<rparr>)"
    by (simp add: fixture_defs processRequest_def js_def)
  show ?thesis unfolding 1 2 by simp
qed

section \<open>processAll: the status refresh\<close>

text \<open>
  C3, as stated, fails. In the session that holds the two uploaded documents, with a
  backend that rejects process requests, \<open>handleProcess\<close> issues one process request and
  no status request, and the status stays the initial one although the backend would
  report one document.
\<close>

theorem processAll_refresh_counterexample:
  "reachable two_uploaded
   \<and> calls (handleProcess rejecting_backend two_uploaded) =
       [UploadFile pdf_10MB, UploadFile pdf_1MB,
        ProcessDocument (processRequest False (js ''/tmp/a.pdf'') doc_a)]
   \<and> databaseStatus (handleProcess rejecting_backend two_uploaded) =
       \<lparr>count = 0, status = js ''unknown''\<rparr>
   \<and> getStatus rejecting_backend 3 =
       Inr \<lparr>st_success = True, document_count = 1, database_status = js ''ready'',
            st_message = []\<rparr>"
  using two_uploaded_reachable by (simp add: session_defs fixture_defs js_def)

text \<open>
  C3, amended. When the loop of \<open>handleProcess\<close> returns, whatever the success flags of the
  responses, the status request is issued right after it, and the status is set from its
  response if it returns one. When a process request is rejected, no status request is
  issued and the status is left as it was.
\<close>

theorem processAll_refresh:
  "(case process_loop b (enableHandwriting w) (unprocessedDocs w) (w\<lparr>isProcessing := True\<rparr>) of
      Inr w1 \<Rightarrow>
        calls (handleProcess b w) = calls w1 @ [GetStatus]
        \<and> (case getStatus b (length (calls w1)) of
              Inr st \<Rightarrow> databaseStatus (handleProcess b w) =
                         \<lparr>count = document_count st, status = database_status st\<rparr>
            | Inl e \<Rightarrow> databaseStatus (handleProcess b w) = databaseStatus w)
    | Inl (e, w1) \<Rightarrow>
        calls (handleProcess b w) = calls w1
        \<and> GetStatus \<notin> set (drop (length (calls w)) (calls (handleProcess b w)))
        \<and> databaseStatus (handleProcess b w) = databaseStatus w)"
proof -
  let ?w0 = "w\<lparr>isProcessing := True\<rparr>"
  have u: "unprocessedDocs ?w0 = unprocessedDocs w" by (simp add: unprocessedDocs_def)
  have eff: "loop_effect ?w0 (outcome (process_loop b (enableHandwriting w) (unprocessedDocs w) ?w0))"
    by (rule process_loop_effect)
  show ?thesis
  proof (cases "process_loop b (enableHandwriting w) (unprocessedDocs w) ?w0")
    case (Inl ew)
    obtain e w1 where ew: "ew = (e, w1)" by (cases ew)
    from eff Inl ew have "loop_effect ?w0 w1" by (simp add: outcome_def)
    then show ?thesis using Inl ew u
      by (auto simp: handleProcess_def process_try_def catch_log_def Let_def loop_effect_def)
  next
    case (Inr w1)
    from eff Inr have "loop_effect ?w0 w1" by (simp add: outcome_def)
    then show ?thesis using Inr u
      by (auto simp: handleProcess_def process_try_def catch_log_def refreshStatus_def Let_def
            loop_effect_def split: sum.splits)
  qed
qed

theorem processAll_refresh_witness:
  "calls (handleProcess declining_backend two_uploaded) =
     [UploadFile pdf_10MB, UploadFile pdf_1MB,
      ProcessDocument (processRequest False (js ''/tmp/a.pdf'') doc_a),
      ProcessDocument (processRequest False (js ''/tmp/d.pdf'') doc_d), GetStatus]
   \<and> databaseStatus (handleProcess declining_backend two_uploaded) =
       \<lparr>count = 1, status = js ''ready''\<rparr>"
proof -
  have l: "process_loop declining_backend (enableHandwriting two_uploaded)
        (unprocessedDocs two_uploaded) (two_uploaded\<lparr>isProcessing := True\<rparr>) =
     Inr (two_uploaded\<lparr>isProcessing := True, calls := calls two_uploaded @
            [ProcessDocument (processRequest False (js ''/tmp/a.pdf'') doc_a),
             ProcessDocument (processRequest False (js ''/tmp/d.pdf'') doc_d)]\<rparr>)"
    by (simp add: session_defs fixture_defs js_def)
  show ?thesis
    using processAll_refresh [of declining_backend two_uploaded] unfolding l
    by (simp add: fixture_defs)
qed

section \<open>reset\<close>

text \<open>
  C6. If the reset request returns with \<open>success: true\<close>, \<open>handleResetDatabase\<close> empties the
  documents, the history and the current answer and then issues the status request,
  setting the status from its response if it returns one. If the reset request returns
  with \<open>success: false\<close>, nothing changes but the record of requests, and no status request
  is issued. If the reset request is rejected, nothing changes but the record of
  requests and the log, which receives the error under \<open>Reset failed:\<close>.
\<close>

theorem reset_clears_exactly_on_success:
  "(case resetDatabase b (length (calls w)) of
      Inr r \<Rightarrow>
        if rs_success r
        then documents (handleResetDatabase b w) = []
             \<and> qnaHistory (handleResetDatabase b w) = []
             \<and> currentAnswer (handleResetDatabase b w) = []
             \<and> calls (handleResetDatabase b w) = calls w @ [ResetDatabase, GetStatus]
             \<and> (case getStatus b (Suc (length (calls w))) of
                   Inr st \<Rightarrow> databaseStatus (handleResetDatabase b w) =
                              \<lparr>count = document_count st, status = database_status st\<rparr>
                 | Inl e \<Rightarrow> databaseStatus (handleResetDatabase b w) = databaseStatus w)
        else handleResetDatabase b w = w\<lparr>calls := calls w @ [ResetDatabase]\<rparr>
    | Inl e \<Rightarrow>
        handleResetDatabase b w =
          w\<lparr>calls := calls w @ [ResetDatabase],
            console := console w @ [(js ''Reset failed:'', e)]\<rparr>)"
  by (simp add: handleResetDatabase_def reset_try_def refreshStatus_def catch_log_def Let_def
           split: sum.splits)

theorem reset_clears_exactly_on_success_witness:
  "documents (handleResetDatabase ok_backend two_uploaded) = []
   \<and> calls (handleResetDatabase ok_backend two_uploaded) =
       [UploadFile pdf_10MB, UploadFile pdf_1MB, ResetDatabase, GetStatus]
   \<and> databaseStatus (handleResetDatabase ok_backend two_uploaded) =
       \<lparr>count = 1, status = js ''ready''\<rparr>
   \<and> handleResetDatabase unreachable_backend two_uploaded =
       two_uploaded\<lparr>calls := [UploadFile pdf_10MB, UploadFile pdf_1MB, ResetDatabase],
         console := [(js ''Reset failed:'', Error (js ''Failed to fetch''))]\<rparr>"
  using reset_clears_exactly_on_success [of ok_backend two_uploaded]
    reset_clears_exactly_on_success [of unreachable_backend two_uploaded]
  by (simp add: fixture_defs)

section \<open>ask\<close>

text \<open>
  C5. For a question that is not blank, \<open>handleAsk\<close> sends it with the result limit 10.
  If the response has \<open>success: true\<close>, the current answer is the answer of the response
  and a new item with the submitted question and that answer is put at the head of the
  history. If the response has \<open>success: false\<close>, the current answer is the fixed not-found
  message and the history is as before. If the request is rejected, the current answer is
  the fixed error message and the history is as before.
\<close>

theorem ask_outcomes:
  assumes "trim (question w) \<noteq> []"
  shows "(case queryDocuments b (length (calls w)) \<lparr>query = question w, n_results = Some 10\<rparr> of
            Inr r \<Rightarrow>
              if qr_success r
              then currentAnswer (handleAsk b w) = answer r
                   \<and> qnaHistory (handleAsk b w) =
                       \<lparr>qna_id = randomId b (length (calls w)), qna_question = question w,
                        qna_answer = answer r, timestamp = now b (length (calls w))\<rparr>
                       # qnaHistory w
              else currentAnswer (handleAsk b w) = notFoundMessage
                   \<and> qnaHistory (handleAsk b w) = qnaHistory w
          | Inl e \<Rightarrow>
              currentAnswer (handleAsk b w) = errorMessage
              \<and> qnaHistory (handleAsk b w) = qnaHistory w)"
  using assms by (simp add: handleAsk_def ask_try_def Let_def split: sum.splits)

theorem ask_outcomes_witness:
  "trim (question (two_uploaded\<lparr>question := js ''why?''\<rparr>)) \<noteq> []
   \<and> currentAnswer (handleAsk ok_backend (two_uploaded\<lparr>question := js ''why?''\<rparr>)) = js ''42''
   \<and> qnaHistory (handleAsk ok_backend (two_uploaded\<lparr>question := js ''why?''\<rparr>)) =
       [\<lparr>qna_id = [2], qna_question = js ''why?'', qna_answer = js ''42'', timestamp = 2\<rparr>]"
proof -
  have h: "trim (question (two_uploaded\<lparr>question := js ''why?''\<rparr>)) \<noteq> []"
    by (simp add: trim_def js_def isWhiteSpace_def)
  show ?thesis
    using h ask_outcomes [OF h, of ok_backend]
    by (simp add: fixture_defs)
qed

section \<open>The invariants of the document list\<close>

definition processedCount :: "world \<Rightarrow> nat" where
  "processedCount w = length (filter (\<lambda>d. processed d = Some True) (documents w))"

definition uniqueIds :: "world \<Rightarrow> bool" where
  "uniqueIds w = distinct (map doc_id (documents w))"

text \<open>The identifiers \<open>Math.random\<close> gives after each of the next \<open>k\<close> requests are pairwise
  different, and no document holds one of them.\<close>

definition freshIds :: "backend \<Rightarrow> nat \<Rightarrow> world \<Rightarrow> bool" where
  "freshIds b k w =
     (distinct (map (randomId b) [length (calls w) ..< length (calls w) + k])
      \<and> list_all (\<lambda>n. randomId b n \<notin> doc_id ` set (documents w))
           [length (calls w) ..< length (calls w) + k])"

lemma ids_markProcessed: "map doc_id (markProcessed doc ds) = map doc_id ds"
  by (induction ds) (auto simp: markProcessed_def)

lemma ids_process_loop:
  "map doc_id (documents (outcome (process_loop b hw docs w))) = map doc_id (documents w)"
  by (rule process_loop_invariant) (simp_all add: ids_markProcessed)

lemma ids_handleProcess: "map doc_id (documents (handleProcess b w)) = map doc_id (documents w)"
proof -
  let ?w0 = "w\<lparr>isProcessing := True\<rparr>"
  let ?r = "process_loop b (enableHandwriting ?w0) (unprocessedDocs ?w0) ?w0"
  have "map doc_id (documents (outcome ?r)) = map doc_id (documents ?w0)"
    by (rule ids_process_loop)
  then show ?thesis
    by (auto simp: handleProcess_def process_try_def catch_log_def refreshStatus_def Let_def
          outcome_def split: sum.splits prod.splits)
qed

lemma documents_handleAsk: "documents (handleAsk b w) = documents w"
  by (simp add: handleAsk_def ask_try_def Let_def split: sum.splits)

lemma documents_handleResetDatabase:
  "documents (handleResetDatabase b w) = documents w \<or> documents (handleResetDatabase b w) = []"
  by (simp add: handleResetDatabase_def reset_try_def refreshStatus_def catch_log_def Let_def
        split: sum.splits)

lemma distinct_upload_loop:
  assumes "distinct (map doc_id (documents w))"
    and "inj_on (randomId b) {length (calls w) ..< length (calls w) + length fs}"
    and "\<forall>n \<in> {length (calls w) ..< length (calls w) + length fs}.
           randomId b n \<notin> doc_id ` set (documents w)"
  shows "distinct (map doc_id (documents (upload_loop b fs w)))"
  using assms
proof (induction fs arbitrary: w)
  case Nil
  then show ?case by simp
next
  case (Cons f fs)
  let ?m = "length (calls w)"
  let ?w1 = "w\<lparr>calls := calls w @ [UploadFile f]\<rparr>"
  have sub: "{Suc ?m ..< Suc ?m + length fs} \<subseteq> {?m ..< ?m + length (f # fs)}" by auto
  have inj': "inj_on (randomId b) {Suc ?m ..< Suc ?m + length fs}"
    using Cons.prems(2) sub by (rule inj_on_subset)
  have fresh': "\<forall>n \<in> {Suc ?m ..< Suc ?m + length fs}. randomId b n \<notin> doc_id ` set (documents w)"
    using Cons.prems(3) sub by blast
  show ?case
  proof (cases "uploadFile b ?m f")
    case (Inl e)
    let ?w2 = "?w1\<lparr>console := console ?w1 @ [(js ''Failed to upload '' @ file_name f @ js '':'', e)]\<rparr>"
    have "distinct (map doc_id (documents (upload_loop b fs ?w2)))"
      by (rule Cons.IH) (use Cons.prems(1) inj' fresh' in simp_all)
    with Inl show ?thesis by (simp add: Let_def)
  next
    case (Inr resp)
    let ?d = "\<lparr>doc_id = randomId b ?m, doc_name = file_name f, doc_size = file_size f,
               uploadedAt = now b ?m, temp_path = Some (up_temp_path resp), processed = Some False\<rparr>"
    let ?w2 = "?w1\<lparr>documents := documents ?w1 @ [?d]\<rparr>"
    have m_in: "?m \<in> {?m ..< ?m + length (f # fs)}" by simp
    have new: "randomId b ?m \<notin> doc_id ` set (documents w)"
      using Cons.prems(3) m_in by blast
    have later: "randomId b n \<noteq> randomId b ?m" if "n \<in> {Suc ?m ..< Suc ?m + length fs}" for n
    proof
      assume "randomId b n = randomId b ?m"
      moreover have "n \<in> {?m ..< ?m + length (f # fs)}" using that sub by blast
      ultimately have "n = ?m" using Cons.prems(2) m_in by (auto dest: inj_onD)
      with that show False by simp
    qed
    have "distinct (map doc_id (documents (upload_loop b fs ?w2)))"
    proof (rule Cons.IH)
      show "distinct (map doc_id (documents ?w2))" using Cons.prems(1) new by auto
      show "inj_on (randomId b) {length (calls ?w2) ..< length (calls ?w2) + length fs}"
        using inj' by simp
      show "\<forall>n \<in> {length (calls ?w2) ..< length (calls ?w2) + length fs}.
              randomId b n \<notin> doc_id ` set (documents ?w2)"
        using fresh' later by auto
    qed
    with Inr show ?thesis by (simp add: Let_def)
  qed
qed

text \<open>
  C4, as stated, fails: when \<open>Math.random\<close> gives the same identifier after two uploads,
  \<open>handleFiles\<close> from the initial state reaches a state with two documents of that
  identifier.
\<close>

theorem unique_ids_counterexample:
  "reachable (handleFiles colliding_backend [pdf_10MB, pdf_1MB] initial)
   \<and> map doc_name (documents (handleFiles colliding_backend [pdf_10MB, pdf_1MB] initial)) =
       [js ''a.pdf'', js ''d.pdf'']
   \<and> map doc_id (documents (handleFiles colliding_backend [pdf_10MB, pdf_1MB] initial)) =
       [js ''k3j9x2a'', js ''k3j9x2a'']
   \<and> \<not> uniqueIds (handleFiles colliding_backend [pdf_10MB, pdf_1MB] initial)"
proof -
  have r: "reachable (handleFiles colliding_backend [pdf_10MB, pdf_1MB] initial)"
    by (rule reachable.addFiles) (rule reachable.init)
  then show ?thesis
    by (simp add: session_defs fixture_defs uniqueIds_def js_def)
qed

text \<open>
  C4, amended. In every state the number of documents with \<open>processed = true\<close> is at most
  the number of documents. \<open>handleProcess\<close>, \<open>handleAsk\<close> and \<open>handleResetDatabase\<close> keep
  the identifiers of the documents pairwise different, and so does \<open>handleFiles\<close> when the
  identifiers drawn for the accepted files are pairwise different and none is held
  already.
\<close>

theorem document_invariants:
  "processedCount w \<le> length (documents w)
   \<and> (uniqueIds w \<longrightarrow>
        uniqueIds (handleProcess b w) \<and> uniqueIds (handleAsk b w)
        \<and> uniqueIds (handleResetDatabase b w)
        \<and> (freshIds b (length (filter validFile files)) w \<longrightarrow> uniqueIds (handleFiles b files w)))"
proof -
  have 1: "processedCount w \<le> length (documents w)" by (simp add: processedCount_def)
  { assume u: "uniqueIds w"
    have p: "uniqueIds (handleProcess b w)" using u by (simp add: uniqueIds_def ids_handleProcess)
    have a: "uniqueIds (handleAsk b w)" using u by (simp add: uniqueIds_def documents_handleAsk)
    have r: "uniqueIds (handleResetDatabase b w)"
      using u documents_handleResetDatabase [of b w] by (auto simp: uniqueIds_def)
    { assume f: "freshIds b (length (filter validFile files)) w"
      let ?w1 = "w\<lparr>isUploading := True\<rparr>"
      let ?fs = "filter validFile files"
      have "distinct (map doc_id (documents (upload_loop b ?fs ?w1)))"
      proof (rule distinct_upload_loop)
        show "distinct (map doc_id (documents ?w1))" using u by (simp add: uniqueIds_def)
        show "inj_on (randomId b) {length (calls ?w1) ..< length (calls ?w1) + length ?fs}"
          using f by (simp add: freshIds_def distinct_map)
        show "\<forall>n \<in> {length (calls ?w1) ..< length (calls ?w1) + length ?fs}.
                randomId b n \<notin> doc_id ` set (documents ?w1)"
          using f by (simp add: freshIds_def list_all_iff)
      qed
      then have "uniqueIds (handleFiles b files w)"
        by (simp add: uniqueIds_def handleFiles_def Let_def) }
    note h = this
    from p a r h have "uniqueIds (handleProcess b w) \<and> uniqueIds (handleAsk b w)
        \<and> uniqueIds (handleResetDatabase b w)
        \<and> (freshIds b (length (filter validFile files)) w \<longrightarrow> uniqueIds (handleFiles b files w))"
      by blast }
  with 1 show ?thesis by blast
qed

theorem document_invariants_witness:
  "uniqueIds two_uploaded
   \<and> freshIds ok_backend (length (filter validFile [pdf_10MB, txt_5MB, pdf_250MB])) two_uploaded
   \<and> uniqueIds (handleFiles ok_backend [pdf_10MB, txt_5MB, pdf_250MB] two_uploaded)
   \<and> uniqueIds (handleProcess ok_backend two_uploaded)
   \<and> map doc_id (documents (handleFiles ok_backend [pdf_10MB, txt_5MB, pdf_250MB] two_uploaded)) =
       [[0], [1], [2]]"
proof -
  have u: "uniqueIds two_uploaded" by (simp add: uniqueIds_def fixture_defs)
  have f: "freshIds ok_backend (length (filter validFile [pdf_10MB, txt_5MB, pdf_250MB])) two_uploaded"
    unfolding filter_example_files by (simp add: freshIds_def fixture_defs)
  have v: "map doc_id (documents (handleFiles ok_backend [pdf_10MB, txt_5MB, pdf_250MB] two_uploaded)) =
       [[0], [1], [2]]"
    by (simp add: session_defs fixture_defs js_def)
  show ?thesis
    using u f v document_invariants [of two_uploaded ok_backend "[pdf_10MB, txt_5MB, pdf_250MB]"]
    by blast
qed

section \<open>The header expression\<close>

lemma trim_Nil [simp]: "trim [] = []"
  by (simp add: trim_def)

lemma flush_flush: "flush (flush st) = flush st"
  by (cases st) (simp add: flush_def)

lemma takeWhile_to_star: "42 \<notin> set g \<Longrightarrow> takeWhile (\<lambda>x. x \<noteq> (42::nat)) (g @ 42 # r) = g"
  by (induction g) auto

lemma re_inner_close_iff:
  "re_inner_close cs = Some (g, r) \<longleftrightarrow> g \<noteq> [] \<and> 42 \<notin> set g \<and> cs = g @ [42, 42] @ r"
proof (induction cs arbitrary: g r)
  case Nil
  then show ?case by simp
next
  case (Cons c cs)
  show ?case
  proof (cases "c = 42")
    case True
    then show ?thesis by (cases g) auto
  next
    case False
    show ?thesis
    proof (cases "re_inner_close cs")
      case None
      have no: "\<not> (g' \<noteq> [] \<and> 42 \<notin> set g' \<and> cs = g' @ [42, 42] @ r')" for g' r'
        using Cons.IH [of g' r'] None by simp
      show ?thesis
      proof
        assume "re_inner_close (c # cs) = Some (g, r)"
        with False None show "g \<noteq> [] \<and> 42 \<notin> set g \<and> c # cs = g @ [42, 42] @ r"
          by (auto split: list.splits if_splits)
      next
        assume a: "g \<noteq> [] \<and> 42 \<notin> set g \<and> c # cs = g @ [42, 42] @ r"
        then obtain g' where g: "g = c # g'" by (cases g) auto
        with a no [of g' r] have "g' = []" by auto
        with a g False None show "re_inner_close (c # cs) = Some (g, r)" by auto
      qed
    next
      case (Some gr)
      obtain g' r' where gr: "gr = (g', r')" by (cases gr)
      from Some gr Cons.IH [of g' r'] have h: "g' \<noteq> []" "42 \<notin> set g'" "cs = g' @ [42, 42] @ r'"
        by simp_all
      show ?thesis
      proof
        assume "re_inner_close (c # cs) = Some (g, r)"
        with False Some gr have "g = c # g'" "r = r'" by simp_all
        with h False show "g \<noteq> [] \<and> 42 \<notin> set g \<and> c # cs = g @ [42, 42] @ r" by simp
      next
        assume a: "g \<noteq> [] \<and> 42 \<notin> set g \<and> c # cs = g @ [42, 42] @ r"
        then obtain g2 where g: "g = c # g2" by (cases g) auto
        with a have cs: "cs = g2 @ [42, 42] @ r" and n2: "42 \<notin> set g2" by auto
        have "g2 = g' \<and> r = r'"
        proof -
          from cs h(3) have e: "g2 @ 42 # 42 # r = g' @ 42 # 42 # r'" by simp
          have "takeWhile (\<lambda>x. x \<noteq> 42) (g2 @ 42 # 42 # r) = g2"
            using n2 by (rule takeWhile_to_star)
          moreover have "takeWhile (\<lambda>x. x \<noteq> 42) (g' @ 42 # 42 # r') = g'"
            using h(2) by (rule takeWhile_to_star)
          ultimately have "g2 = g'" using e by simp
          with e show ?thesis by simp
        qed
        with False Some gr g show "re_inner_close (c # cs) = Some (g, r)" by simp
      qed
    qed
  qed
qed

lemma re_header_at_iff:
  "re_header_at s = Some (g, r) \<longleftrightarrow> g \<noteq> [] \<and> 42 \<notin> set g \<and> s = [42, 42] @ g @ [42, 42] @ r"
proof (cases s)
  case Nil
  then show ?thesis by simp
next
  case (Cons a s1)
  show ?thesis
  proof (cases s1)
    case Nil
    with Cons show ?thesis by simp
  next
    case (Cons b cs)
    with \<open>s = a # s1\<close> show ?thesis
      using re_inner_close_iff [of cs g r] by auto
  qed
qed

text \<open>A match of the header expression is a span \<open>**g**\<close> with \<open>g\<close> not empty and free of
  asterisks, and the expression matches exactly the lines that hold such a span.\<close>

lemma re_header_span:
  "re_header s = Some (pre, g, post) \<Longrightarrow>
     s = pre @ [42, 42] @ g @ [42, 42] @ post \<and> g \<noteq> [] \<and> 42 \<notin> set g"
proof (induction s arbitrary: pre)
  case Nil
  then show ?case by simp
next
  case (Cons c cs)
  show ?case
  proof (cases "re_header_at (c # cs)")
    case (Some gr)
    obtain g' r' where gr: "gr = (g', r')" by (cases gr)
    with Some Cons.prems have "pre = []" "g = g'" "post = r'" by simp_all
    with Some gr re_header_at_iff [of "c # cs" g' r'] show ?thesis by simp
  next
    case None
    with Cons.prems obtain pre' where "re_header cs = Some (pre', g, post)" "pre = c # pre'"
      by (auto split: option.splits)
    with Cons.IH [of pre'] show ?thesis by simp
  qed
qed

lemma re_header_complete:
  assumes "g \<noteq> []" "42 \<notin> set g"
  shows "re_header (pre @ [42, 42] @ g @ [42, 42] @ post) \<noteq> None"
proof (induction pre)
  case Nil
  have "re_header_at ([42, 42] @ g @ [42, 42] @ post) = Some (g, post)"
    using assms re_header_at_iff [of "[42, 42] @ g @ [42, 42] @ post" g post] by simp
  then show ?case by simp
next
  case (Cons c pre)
  then show ?case by (auto split: option.splits)
qed

lemma re_header_iff:
  "re_header s \<noteq> None \<longleftrightarrow>
     (\<exists>pre g post. s = pre @ [42, 42] @ g @ [42, 42] @ post \<and> g \<noteq> [] \<and> 42 \<notin> set g)"
proof
  assume "re_header s \<noteq> None"
  then obtain pre g post where "re_header s = Some (pre, g, post)" by auto
  then show "\<exists>pre g post. s = pre @ [42, 42] @ g @ [42, 42] @ post \<and> g \<noteq> [] \<and> 42 \<notin> set g"
    by (blast dest: re_header_span)
next
  assume "\<exists>pre g post. s = pre @ [42, 42] @ g @ [42, 42] @ post \<and> g \<noteq> [] \<and> 42 \<notin> set g"
  then show "re_header s \<noteq> None" using re_header_complete by blast
qed

lemma startsWith_iff: "startsWith s p \<longleftrightarrow> (\<exists>b. s = p @ b)"
  by (induction s p rule: startsWith.induct) auto

lemma includes_str_iff: "includes_str s p \<longleftrightarrow> (\<exists>a b. s = a @ p @ b)"
proof (induction s)
  case Nil
  then show ?case by simp
next
  case (Cons c cs)
  show ?case
  proof
    assume "includes_str (c # cs) p"
    then consider "startsWith (c # cs) p" | "includes_str cs p" by auto
    then show "\<exists>a b. c # cs = a @ p @ b"
    proof cases
      case 1
      then obtain b where "c # cs = p @ b" by (auto simp: startsWith_iff)
      then have "c # cs = [] @ p @ b" by simp
      then show ?thesis by blast
    next
      case 2
      with Cons.IH obtain a b where "cs = a @ p @ b" by blast
      then have "c # cs = (c # a) @ p @ b" by simp
      then show ?thesis by blast
    qed
  next
    assume "\<exists>a b. c # cs = a @ p @ b"
    then obtain a b where ab: "c # cs = a @ p @ b" by blast
    show "includes_str (c # cs) p"
    proof (cases a)
      case Nil
      with ab have "startsWith (c # cs) p" by (auto simp: startsWith_iff)
      then show ?thesis by simp
    next
      case (Cons x a')
      with ab have "cs = a' @ p @ b" by simp
      with Cons.IH have "includes_str cs p" by blast
      then show ?thesis by simp
    qed
  qed
qed

lemma js_stars: "js ''**'' = [42, 42]"
  by (simp add: js_def)

lemma re_header_includes: "re_header s = Some m \<Longrightarrow> includes_str s (js ''**'')"
proof -
  assume a: "re_header s = Some m"
  obtain pre g post where "m = (pre, g, post)" by (cases m)
  with a have "s = pre @ [42, 42] @ (g @ [42, 42] @ post)"
    by (auto dest: re_header_span)
  then show ?thesis unfolding js_stars includes_str_iff by blast
qed

lemmas format_defs = format_def formatAnswer_def formatSection_def section_lines_def
  section_blocks_def flush_def list_div_def trim_def isWhiteSpace_def isLineTerminator_def
  isBulletChar_def isDigit_def js_def Let_def

section \<open>Lines with asterisks but no span\<close>

text \<open>
  C9. In the header branch a line that contains \<open>**\<close> but no span \<open>**text**\<close> only
  flushes the buffer: it gives no heading and nothing of it reaches the buffer, so its
  text is in no element of the result. A section whose lines are all of this kind gives a
  \<open>div\<close> without children, that is, no block at all; the input \<open>** hello\<close> is one, and
  \<open>format\<close> returns the empty sequence for it.
\<close>

theorem unbalanced_line_dropped:
  "(includes_str line (js ''**'') \<and> re_header line = None
      \<longrightarrow> header_lines (line # rest) st = header_lines rest (flush st))
   \<and> (list_all (\<lambda>l. includes_str l (js ''**'') \<and> re_header l = None) ls
      \<longrightarrow> fst (flush (header_lines ls ([], []))) = [])
   \<and> (includes_str section (js ''**'') \<and> section_lines section \<noteq> []
       \<and> list_all (\<lambda>l. includes_str l (js ''**'') \<and> re_header l = None) (section_lines section)
      \<longrightarrow> formatSection section = Some (DIV []) \<and> section_blocks (formatSection section) = [])
   \<and> includes_str (js ''** hello'') (js ''**'') \<and> re_header (js ''** hello'') = None
   \<and> formatAnswer (js ''** hello'') = [Some (DIV [])]
   \<and> format (js ''** hello'') = []"
proof -
  have step: "header_lines (l # rest) st' = header_lines rest (flush st')"
    if "includes_str l (js ''**'')" "re_header l = None" for l rest st'
    using that by simp
  have all: "header_lines ks st' = (if ks = [] then st' else flush st')"
    if "list_all (\<lambda>l. includes_str l (js ''**'') \<and> re_header l = None) ks" for ks st'
    using that
  proof (induction ks arbitrary: st')
    case Nil
    then show ?case by simp
  next
    case (Cons l ks)
    then have "header_lines (l # ks) st' = header_lines ks (flush st')" by simp
    also have "\<dots> = (if ks = [] then flush st' else flush (flush st'))"
      using Cons by simp
    finally show ?case by (simp add: flush_flush)
  qed
  have empty: "fst (flush (header_lines ks ([], []))) = []"
    if "list_all (\<lambda>l. includes_str l (js ''**'') \<and> re_header l = None) ks" for ks
    using all [OF that, of "([], [])"] by (simp add: flush_def)
  have sec: "formatSection section = Some (DIV []) \<and> section_blocks (formatSection section) = []"
    if "includes_str section (js ''**'')" "section_lines section \<noteq> []"
       "list_all (\<lambda>l. includes_str l (js ''**'') \<and> re_header l = None) (section_lines section)"
    using that empty [OF that(3)] by (simp add: formatSection_def section_blocks_def)
  have ex1: "includes_str (js ''** hello'') (js ''**'') \<and> re_header (js ''** hello'') = None"
    by (simp add: js_def)
  have ex2: "formatAnswer (js ''** hello'') = [Some (DIV [])]"
    by (simp add: format_defs)
  have ex3: "format (js ''** hello'') = []"
    by (simp add: format_def ex2 section_blocks_def)
  show ?thesis
    apply (intro conjI impI)
          apply (erule conjE, rule step, assumption+)
         apply (erule empty)
        apply (rule conjunct1 [OF sec]; simp)
       apply (rule conjunct2 [OF sec]; simp)
      apply (rule conjunct1 [OF ex1])
     apply (rule conjunct2 [OF ex1])
    apply (rule ex2)
    apply (rule ex3)
    done
qed

theorem unbalanced_line_dropped_witness:
  "includes_str (js ''** note'') (js ''**'') \<and> re_header (js ''** note'') = None
   \<and> header_lines [js ''** note'', js ''more''] ([], js ''text '') =
       ([P (js ''text'')], js ''more '')"
proof -
  have h: "includes_str (js ''** note'') (js ''**'') \<and> re_header (js ''** note'') = None"
    by (simp add: js_def)
  have f: "flush ([], js ''text '') = ([P (js ''text'')], [])"
    by (simp add: format_defs)
  have n: "\<not> includes_str (js ''more'') (js ''**'')" by (simp add: js_def)
  have "includes_str (js ''** note'') (js ''**'') \<and> re_header (js ''** note'') = None
      \<longrightarrow> header_lines (js ''** note'' # [js ''more'']) ([], js ''text '') =
        header_lines [js ''more''] (flush ([], js ''text ''))"
    by (rule conjunct1 [OF unbalanced_line_dropped])
  with h have "header_lines [js ''** note'', js ''more''] ([], js ''text '') =
        header_lines [js ''more''] (flush ([], js ''text ''))" by (rule rev_mp)
  with h n show ?thesis unfolding f by (simp add: js_def)
qed

section \<open>The header branch against its description\<close>

text \<open>
  The processing of the lines of a header-bearing section in the words of the
  specification: text that is no header goes to the pending buffer; a line with a header
  span flushes the buffer, if it is not empty, as a paragraph, gives a heading with the
  inner text of the span, and puts what is left of the line once the span is removed
  back into the buffer; after the last line the buffer is flushed as a final paragraph.
\<close>

definition spec_flush :: "DisplayBlock list \<times> jsstring \<Rightarrow> DisplayBlock list \<times> jsstring" where
  "spec_flush st =
     (if trim (snd st) \<noteq> [] then (fst st @ [Paragraph (trim (snd st))], []) else st)"

fun spec_header_lines ::
  "jsstring list \<Rightarrow> DisplayBlock list \<times> jsstring \<Rightarrow> DisplayBlock list \<times> jsstring" where
  "spec_header_lines [] st = st"
| "spec_header_lines (line # rest) st =
     (case re_header line of
        Some (pre, g, post) \<Rightarrow>
          spec_header_lines rest
            (fst (spec_flush st) @ [Heading g],
             if trim (pre @ post) \<noteq> [] then snd (spec_flush st) @ trim (pre @ post) @ js '' ''
             else snd (spec_flush st))
      | None \<Rightarrow> spec_header_lines rest (fst st, snd st @ line @ js '' ''))"

definition spec_header_section :: "jsstring list \<Rightarrow> DisplayBlock list" where
  "spec_header_section lines = fst (spec_flush (spec_header_lines lines ([], [])))"

text \<open>The blocks of the elements collected so far, with the buffer.\<close>

definition as_spec :: "jsx list \<times> jsstring \<Rightarrow> DisplayBlock list \<times> jsstring" where
  "as_spec st = (concat (map blocks (fst st)), snd st)"

lemma as_spec_flush: "as_spec (flush st) = spec_flush (as_spec st)"
  by (simp add: as_spec_def flush_def spec_flush_def)

text \<open>Where every line that contains \<open>**\<close> holds a span, the header branch does what the
  specification says.\<close>

lemma header_lines_as_specified:
  assumes "list_all (\<lambda>l. \<not> includes_str l (js ''**'') \<or> re_header l \<noteq> None) ls"
  shows "as_spec (header_lines ls st) = spec_header_lines ls (as_spec st)"
  using assms
proof (induction ls arbitrary: st)
  case Nil
  show ?case by simp
next
  case (Cons l ls)
  then have rest: "as_spec (header_lines ls st') = spec_header_lines ls (as_spec st')" for st'
    by simp
  show ?case
  proof (cases "re_header l")
    case None
    with Cons.prems have "\<not> includes_str l (js ''**'')" by simp
    with None show ?thesis by (simp add: rest) (simp add: as_spec_def)
  next
    case (Some m)
    obtain pre g post where m: "m = (pre, g, post)" by (cases m)
    have inc: "includes_str l (js ''**'')" using Some by (rule re_header_includes)
    have fl: "fst (spec_flush (as_spec st)) = concat (map blocks (fst (flush st)))"
      "snd (spec_flush (as_spec st)) = snd (flush st)"
      unfolding as_spec_flush [symmetric] by (simp_all add: as_spec_def)
    show ?thesis using Some m inc
      by (simp add: rest fl) (simp add: as_spec_def)
  qed
qed

lemma header_section_as_specified:
  assumes "list_all (\<lambda>l. \<not> includes_str l (js ''**'') \<or> re_header l \<noteq> None) ls"
  shows "blocks (DIV (fst (flush (header_lines ls ([], []))))) = spec_header_section ls"
proof -
  have "as_spec ([], []) = ([], [])" by (simp add: as_spec_def)
  then have "as_spec (flush (header_lines ls ([], []))) = spec_flush (spec_header_lines ls ([], []))"
    using header_lines_as_specified [OF assms, of "([], [])"] by (simp add: as_spec_flush)
  then have "fst (as_spec (flush (header_lines ls ([], [])))) = spec_header_section ls"
    unfolding spec_header_section_def by (rule arg_cong)
  then show ?thesis by (simp add: as_spec_def)
qed

text \<open>The examples of the specification for plain text, numbered lists and empty input
  hold, and so does its header example.\<close>

lemma format_plain_example: "format (js ''hello world'') = [Paragraph (js ''hello world'')]"
  by (simp add: format_defs)

lemma format_numbered_example:
  "format (js ''1. first'' @ [10] @ js ''2. second'') =
     [NumberedList [js ''first'', js ''second'']]"
  by (simp add: format_defs)

lemma format_empty_example: "format [] = [] \<and> format (js ''   '') = []"
  by (simp add: format_defs)


lemma format_header_example:
  "format (js ''**Summary**'' @ [10] @ js ''This is the body.'') =
     [Heading (js ''Summary''), Paragraph (js ''This is the body.'')]"
  by (simp add: format_defs)

text \<open>
  C1 does not hold on the code. The section \<open>**Summary**\<close>, newline, \<open>** hello\<close> contains a
  header span, and its second line is text without a span. As specified, the result is
  the heading \<open>Summary\<close> and the paragraph \<open>** hello\<close>; \<open>format\<close> returns the heading alone.
\<close>

theorem header_section_loses_text:
  "section_lines (js ''**Summary**'' @ [10] @ js ''** hello'') = [js ''**Summary**'', js ''** hello'']
   \<and> re_header (js ''**Summary**'') = Some ([], js ''Summary'', [])
   \<and> re_header (js ''** hello'') = None
   \<and> spec_header_section [js ''**Summary**'', js ''** hello''] =
       [Heading (js ''Summary''), Paragraph (js ''** hello'')]
   \<and> format (js ''**Summary**'' @ [10] @ js ''** hello'') = [Heading (js ''Summary'')]"
  by (simp add: format_defs spec_header_section_def spec_flush_def)

section \<open>Trimmed lines\<close>

text \<open>A line as \<open>section_lines\<close> gives it: not empty, with no white space at either end.\<close>

definition clean :: "jsstring \<Rightarrow> bool" where
  "clean l = (l \<noteq> [] \<and> \<not> isWhiteSpace (hd l) \<and> \<not> isWhiteSpace (last l))"

lemma last_dropWhile: "dropWhile Q xs \<noteq> [] \<Longrightarrow> last (dropWhile Q xs) = last xs"
  by (induction xs) (auto split: if_splits)

lemma trim_clean: "trim x \<noteq> [] \<Longrightarrow> clean (trim x)"
proof -
  assume ne: "trim x \<noteq> []"
  let ?y = "dropWhile isWhiteSpace x"
  let ?z = "dropWhile isWhiteSpace (rev ?y)"
  have t: "trim x = rev ?z" by (simp add: trim_def)
  from ne t have z: "?z \<noteq> []" by simp
  have y: "?y \<noteq> []"
  proof
    assume a: "?y = []"
    have "?z = []" by (simp only: a rev.simps dropWhile.simps)
    with z show False by (simp only: not_True_eq_False simp_thms)
  qed
  have "\<not> isWhiteSpace (hd ?z)" using z by (rule hd_dropWhile)
  then have 1: "\<not> isWhiteSpace (last (trim x))" using z t by (simp add: last_rev)
  have "last ?z = last (rev ?y)" using z by (rule last_dropWhile)
  also have "\<dots> = hd ?y" using y by (simp add: last_rev)
  finally have "hd (trim x) = hd ?y" using z t by (simp add: hd_rev)
  moreover have "\<not> isWhiteSpace (hd ?y)" using y by (rule hd_dropWhile)
  ultimately have 2: "\<not> isWhiteSpace (hd (trim x))" by simp
  from ne 1 2 show ?thesis by (simp add: clean_def)
qed

lemma section_lines_clean: "l \<in> set (section_lines s) \<Longrightarrow> clean l"
  by (auto simp: section_lines_def trim_clean)

lemma trim_clean_space:
  assumes "s \<noteq> []" "\<not> isWhiteSpace (hd s)" "\<not> isWhiteSpace (last s)"
  shows "trim (s @ js '' '') = s"
proof -
  have sp: "js '' '' = [32]" by (simp add: js_def)
  have ws: "isWhiteSpace 32" by (simp add: isWhiteSpace_def)
  from assms obtain c cs where s: "s = c # cs" by (cases s) auto
  with assms have "dropWhile isWhiteSpace (s @ [32]) = s @ [32]" by simp
  moreover have "dropWhile isWhiteSpace (rev (s @ [32])) = rev s"
  proof -
    from assms obtain d ds where r: "rev s = d # ds" by (cases "rev s") auto
    then have "d = last s" using assms(1) by (metis hd_rev list.sel(1))
    with assms(3) have "dropWhile isWhiteSpace (d # ds) = d # ds" by simp
    with r ws show ?thesis by simp
  qed
  ultimately show ?thesis by (simp add: trim_def sp)
qed

text \<open>The buffer after the lines \<open>pend\<close> have been appended to the empty buffer.\<close>

definition glue :: "jsstring list \<Rightarrow> jsstring" where
  "glue pend = concat (map (\<lambda>l. l @ js '' '') pend)"

lemma glue_snoc: "glue (pend @ [l]) = glue pend @ l @ js '' ''"
  by (simp add: glue_def)

lemma glue_join: "pend \<noteq> [] \<Longrightarrow> glue pend = join_sp pend @ js '' ''"
proof (induction pend rule: join_sp.induct)
  case 1
  then show ?case by simp
next
  case (2 x)
  show ?case by (simp add: glue_def)
next
  case (3 x y ys)
  then have "glue (y # ys) = join_sp (y # ys) @ js '' ''" by simp
  then show ?case by (simp add: glue_def js_def)
qed

lemma join_sp_ends:
  assumes "pend \<noteq> []" "\<forall>l \<in> set pend. clean l"
  shows "join_sp pend \<noteq> [] \<and> hd (join_sp pend) = hd (hd pend)
         \<and> last (join_sp pend) = last (last pend)"
  using assms
proof (induction pend rule: join_sp.induct)
  case 1
  then show ?case by simp
next
  case (2 x)
  then show ?case by (simp add: clean_def)
next
  case (3 x y ys)
  then have "join_sp (y # ys) \<noteq> [] \<and> last (join_sp (y # ys)) = last (last (y # ys))" by simp
  moreover have "x \<noteq> []" using "3.prems" by (simp add: clean_def)
  ultimately show ?case by simp
qed

lemma trim_glue:
  assumes "\<forall>l \<in> set pend. clean l"
  shows "trim (glue pend) = (if pend = [] then [] else join_sp pend)"
proof (cases "pend = []")
  case True
  then show ?thesis by (simp add: glue_def)
next
  case False
  from join_sp_ends [OF False assms]
  have e: "join_sp pend \<noteq> []" "hd (join_sp pend) = hd (hd pend)"
    "last (join_sp pend) = last (last pend)" by simp_all
  have "clean (hd pend)" "clean (last pend)" using False assms by simp_all
  then have "\<not> isWhiteSpace (hd (join_sp pend))" "\<not> isWhiteSpace (last (join_sp pend))"
    using e by (simp_all add: clean_def)
  with e(1) have "trim (join_sp pend @ js '' '') = join_sp pend" by (rule trim_clean_space)
  with False show ?thesis by (simp add: glue_join)
qed

section \<open>The list branches\<close>

text \<open>The maximal runs of consecutive lines that are no items, in order.\<close>

function prose_runs :: "(jsstring \<Rightarrow> bool) \<Rightarrow> jsstring list \<Rightarrow> jsstring list list" where
  "prose_runs isItem [] = []"
| "prose_runs isItem (l # ls) =
     (if isItem l then prose_runs isItem ls
      else (l # takeWhile (\<lambda>x. \<not> isItem x) ls)
           # prose_runs isItem (dropWhile (\<lambda>x. \<not> isItem x) ls))"
  by pat_completeness auto
termination
  by (relation "measure (\<lambda>(isItem, ls). length ls)")
     (auto simp: less_Suc_eq_le length_dropWhile_le)

text \<open>The same, when the lines \<open>pend\<close> have been read and no item since.\<close>

definition runs_with :: "(jsstring \<Rightarrow> bool) \<Rightarrow> jsstring list \<Rightarrow> jsstring list \<Rightarrow> jsstring list list" where
  "runs_with isItem pend ls =
     (if pend @ takeWhile (\<lambda>x. \<not> isItem x) ls = [] then []
      else [pend @ takeWhile (\<lambda>x. \<not> isItem x) ls])
     @ prose_runs isItem (dropWhile (\<lambda>x. \<not> isItem x) ls)"

lemma runs_with_Nil: "runs_with isItem [] ls = prose_runs isItem ls"
  by (cases ls) (simp_all add: runs_with_def)

lemma runs_with_item:
  "isItem l \<Longrightarrow> runs_with isItem pend (l # ls) =
     (if pend = [] then [] else [pend]) @ prose_runs isItem ls"
  by (simp add: runs_with_def)

lemma runs_with_prose:
  "\<not> isItem l \<Longrightarrow> runs_with isItem pend (l # ls) = runs_with isItem (pend @ [l]) ls"
  by (simp add: runs_with_def)

lemma isLI_flush: "filter isLI (fst (flush st)) = filter isLI (fst st)"
  by (simp add: flush_def)

lemma list_lines_items:
  "filter isLI (fst (list_lines re ls st)) = filter isLI (fst st) @ map LI (List.map_filter re ls)"
proof (induction ls arbitrary: st)
  case Nil
  show ?case by (simp add: List.map_filter_simps)
next
  case (Cons l ls)
  show ?case
    by (cases "re l") (simp_all add: Cons.IH List.map_filter_simps isLI_flush)
qed

lemma flush_glue:
  assumes "\<forall>l \<in> set pend. clean l"
  shows "flush (els, glue pend) = (els @ (if pend = [] then [] else [P (join_sp pend)]), [])"
proof (cases "pend = []")
  case True
  then show ?thesis by (simp add: flush_def glue_def)
next
  case False
  from join_sp_ends [OF False assms] have "join_sp pend \<noteq> []" by simp
  with False show ?thesis by (simp add: flush_def trim_glue [OF assms])
qed

lemma list_lines_prose:
  assumes "\<forall>l \<in> set pend \<union> set ls. clean l"
  shows "filter (\<lambda>e. \<not> isLI e) (fst (flush (list_lines re ls (els, glue pend)))) =
           filter (\<lambda>e. \<not> isLI e) els
           @ map (\<lambda>run. P (join_sp run)) (runs_with (\<lambda>l. re l \<noteq> None) pend ls)"
  using assms
proof (induction ls arbitrary: els pend)
  case Nil
  then have "\<forall>l \<in> set pend. clean l" by simp
  then show ?case by (simp add: flush_glue runs_with_def)
next
  case (Cons l ls)
  from Cons.prems have cp: "\<forall>l \<in> set pend. clean l" and cl: "clean l"
    and cs: "\<forall>l \<in> set ls. clean l" by simp_all
  show ?case
  proof (cases "re l")
    case None
    have pl: "\<forall>x \<in> set (pend @ [l]) \<union> set ls. clean x" using cp cl cs by auto
    have "list_lines re (l # ls) (els, glue pend) = list_lines re ls (els, glue (pend @ [l]))"
      using None by (simp add: glue_snoc)
    then show ?thesis
      using Cons.IH [OF pl, of els] None by (simp add: runs_with_prose)
  next
    case (Some g)
    let ?els = "els @ (if pend = [] then [] else [P (join_sp pend)]) @ [LI g]"
    have e: "\<forall>x \<in> set [] \<union> set ls. clean x" using cs by simp
    have f: "flush (els, glue pend) = (els @ (if pend = [] then [] else [P (join_sp pend)]), [])"
      using cp by (rule flush_glue)
    have g0: "glue [] = []" by (simp add: glue_def)
    have "list_lines re (l # ls) (els, glue pend) = list_lines re ls (?els, glue [])"
      using Some by (simp add: f g0)
    then show ?thesis
      using Cons.IH [OF e, of ?els] Some by (simp add: runs_with_item runs_with_Nil)
  qed
qed

text \<open>On a trimmed line, the bullet test that chooses the branch and the bullet match of the
  loop agree.\<close>

lemma line_terminator_is_space: "isLineTerminator c \<Longrightarrow> isWhiteSpace c"
  by (auto simp: isLineTerminator_def isWhiteSpace_def)

lemma re_ws_plus_group:
  "cs \<noteq> [] \<Longrightarrow> isWhiteSpace (hd cs) \<Longrightarrow> \<not> isWhiteSpace (last cs) \<Longrightarrow> re_ws_plus True cs \<noteq> None"
proof (induction cs)
  case Nil
  then show ?case by simp
next
  case (Cons c cs)
  from Cons.prems have c: "isWhiteSpace c" by simp
  with Cons.prems have ne: "cs \<noteq> []" by auto
  then obtain d ds where d: "cs = d # ds" by (cases cs) auto
  from Cons.prems ne have l: "\<not> isWhiteSpace (last cs)" by simp
  show ?case
  proof (cases "isWhiteSpace d")
    case True
    with Cons.IH ne l d have "re_ws_plus True cs \<noteq> None" by simp
    with c show ?thesis by auto
  next
    case False
    then have "\<not> isLineTerminator d" by (auto dest: line_terminator_is_space)
    with d have "re_dot_plus cs \<noteq> None" by simp
    with c show ?thesis by (auto split: option.splits)
  qed
qed

lemma re_ws_plus_hd: "re_ws_plus cap cs \<noteq> None \<Longrightarrow> cs \<noteq> [] \<and> isWhiteSpace (hd cs)"
  by (cases cs) (auto split: if_splits)

lemma re_bullet_group:
  "l \<noteq> [] \<Longrightarrow> \<not> isWhiteSpace (last l) \<Longrightarrow> re_bullet False l \<noteq> None \<Longrightarrow> re_bullet True l \<noteq> None"
proof (induction l)
  case Nil
  then show ?case by simp
next
  case (Cons c cs)
  show ?case
  proof (cases "isWhiteSpace c")
    case True
    with Cons.prems have "cs \<noteq> []" by auto
    with Cons True show ?thesis by simp
  next
    case False
    with Cons.prems have b: "isBulletChar c" and w: "re_ws_plus False cs \<noteq> None"
      by (auto split: if_splits)
    from w have h: "cs \<noteq> [] \<and> isWhiteSpace (hd cs)" by (rule re_ws_plus_hd)
    with Cons.prems(2) have "\<not> isWhiteSpace (last cs)" by simp
    with h have "re_ws_plus True cs \<noteq> None" by (simp add: re_ws_plus_group)
    with False b show ?thesis by simp
  qed
qed

lemma re_ws_plus_plain: "re_ws_plus True cs \<noteq> None \<Longrightarrow> re_ws_plus False cs \<noteq> None"
  by (cases cs) (auto split: if_splits option.splits)

lemma re_bullet_plain: "re_bullet True l \<noteq> None \<Longrightarrow> re_bullet False l \<noteq> None"
proof (induction l)
  case Nil
  then show ?case by simp
next
  case (Cons c cs)
  show ?case
  proof (cases "isWhiteSpace c")
    case True
    with Cons show ?thesis by simp
  next
    case False
    with Cons.prems have b: "isBulletChar c" and w: "re_ws_plus True cs \<noteq> None"
      by (auto split: if_splits)
    from w have "re_ws_plus False cs \<noteq> None" by (rule re_ws_plus_plain)
    with False b show ?thesis by simp
  qed
qed

lemma blocks_paragraphs:
  "concat (map blocks (map (\<lambda>run. P (join_sp run)) runs)) = map (\<lambda>run. Paragraph (join_sp run)) runs"
  by (induction runs) simp_all

lemma map_filter_nonempty: "l \<in> set ls \<Longrightarrow> f l \<noteq> None \<Longrightarrow> List.map_filter f ls \<noteq> []"
  by (auto simp: List.map_filter_def filter_empty_conv)

lemma blocks_list_div_UL:
  assumes "filter isLI items = map LI its" "its \<noteq> []"
    and "filter (\<lambda>e. \<not> isLI e) items = map (\<lambda>run. P (join_sp run)) runs"
  shows "blocks (list_div UL items) = map (\<lambda>run. Paragraph (join_sp run)) runs @ [BulletList its]"
proof -
  have t: "map text_of (map LI its) = its" by (induction its) simp_all
  show ?thesis
    unfolding list_div_def assms(1) assms(3)
    using assms(2) by (simp add: blocks_paragraphs t del: map_map)
qed

text \<open>
  C2, as stated, fails. In the section with the lines \<open>Intro\<close>, \<open>* a\<close>, \<open>middle\<close>, \<open>* b\<close>,
  which has no header span, the text that is no bullet comes out as two paragraphs, not as
  one.
\<close>

theorem bullet_single_paragraph_counterexample:
  "\<not> includes_str (js ''Intro'' @ [10] @ js ''* a'' @ [10] @ js ''middle'' @ [10] @ js ''* b'') (js ''**'')
   \<and> section_lines (js ''Intro'' @ [10] @ js ''* a'' @ [10] @ js ''middle'' @ [10] @ js ''* b'') =
       [js ''Intro'', js ''* a'', js ''middle'', js ''* b'']
   \<and> format (js ''Intro'' @ [10] @ js ''* a'' @ [10] @ js ''middle'' @ [10] @ js ''* b'') =
       [Paragraph (js ''Intro''), Paragraph (js ''middle''), BulletList [js ''a'', js ''b'']]
   \<and> format (js ''Intro'' @ [10] @ js ''* a'' @ [10] @ js ''middle'' @ [10] @ js ''* b'') \<noteq>
       [Paragraph (js ''Intro middle''), BulletList [js ''a'', js ''b'']]"
  by (simp add: format_defs)

text \<open>
  C2, amended. For every section that does not contain \<open>**\<close> and has a line that starts
  with \<open>*\<close>, \<open>-\<close> or the bullet U+2022 followed by white space, \<open>format\<close> gives one paragraph
  for each maximal run of consecutive lines that are no bullet lines, the lines of the run
  joined by single spaces, all of them before a single bullet list; the list is not empty
  and holds the items of all the bullet lines in line order. In particular the input
  \<open>Intro text\<close>, \<open>* item one\<close>, \<open>* item two\<close> gives the paragraph \<open>Intro text\<close> and the list
  of \<open>item one\<close> and \<open>item two\<close>.
\<close>

theorem bullet_section_blocks:
  assumes "\<not> includes_str section (js ''**'')"
    and "list_ex (\<lambda>line. re_bullet False line \<noteq> None) (section_lines section)"
  shows "section_blocks (formatSection section) =
           map (\<lambda>run. Paragraph (join_sp run))
             (prose_runs (\<lambda>line. re_bullet True line \<noteq> None) (section_lines section))
           @ [BulletList (List.map_filter (re_bullet True) (section_lines section))]
         \<and> List.map_filter (re_bullet True) (section_lines section) \<noteq> []
         \<and> format (js ''Intro text'' @ [10] @ js ''* item one'' @ [10] @ js ''* item two'') =
             [Paragraph (js ''Intro text''), BulletList [js ''item one'', js ''item two'']]"
proof -
  let ?lines = "section_lines section"
  let ?items = "fst (flush (list_lines (re_bullet True) ?lines ([], [])))"
  let ?its = "List.map_filter (re_bullet True) ?lines"
  from assms(2) obtain l where l: "l \<in> set ?lines" "re_bullet False l \<noteq> None"
    by (auto simp: list_ex_iff)
  then have ne: "?lines \<noteq> []" by auto
  have cl: "\<forall>x \<in> set [] \<union> set ?lines. clean x" by (simp add: section_lines_clean)
  from l(1) have "clean l" by (rule section_lines_clean)
  with l(2) have "re_bullet True l \<noteq> None" by (simp add: clean_def re_bullet_group)
  with l(1) have its: "?its \<noteq> []" by (rule map_filter_nonempty)
  have li: "filter isLI ?items = map LI ?its"
    by (simp add: isLI_flush list_lines_items)
  have g0: "glue [] = []" by (simp add: glue_def)
  have pr: "filter (\<lambda>e. \<not> isLI e) ?items =
      map (\<lambda>run. P (join_sp run)) (prose_runs (\<lambda>line. re_bullet True line \<noteq> None) ?lines)"
    using list_lines_prose [OF cl, of "re_bullet True" "[]"] by (simp add: g0 runs_with_Nil)
  have f: "formatSection section = Some (list_div UL ?items)"
    using assms ne by (simp add: formatSection_def)
  have 1: "section_blocks (formatSection section) =
           map (\<lambda>run. Paragraph (join_sp run))
             (prose_runs (\<lambda>line. re_bullet True line \<noteq> None) ?lines) @ [BulletList ?its]"
    unfolding f section_blocks_def using li its pr by (simp add: blocks_list_div_UL)
  have 3: "format (js ''Intro text'' @ [10] @ js ''* item one'' @ [10] @ js ''* item two'') =
             [Paragraph (js ''Intro text''), BulletList [js ''item one'', js ''item two'']]"
    by (simp add: format_defs)
  from 1 its 3 show ?thesis by (intro conjI)
qed

theorem bullet_section_blocks_witness:
  "\<not> includes_str (js ''Intro'' @ [10] @ js ''* a'' @ [10] @ js ''middle'' @ [10] @ js ''* b'') (js ''**'')
   \<and> list_ex (\<lambda>line. re_bullet False line \<noteq> None)
       (section_lines (js ''Intro'' @ [10] @ js ''* a'' @ [10] @ js ''middle'' @ [10] @ js ''* b''))
   \<and> section_blocks (formatSection (js ''Intro'' @ [10] @ js ''* a'' @ [10] @ js ''middle'' @ [10] @ js ''* b'')) =
       [Paragraph (js ''Intro''), Paragraph (js ''middle''), BulletList [js ''a'', js ''b'']]"
proof -
  let ?s = "js ''Intro'' @ [10] @ js ''* a'' @ [10] @ js ''middle'' @ [10] @ js ''* b''"
  have sl: "section_lines ?s = [js ''Intro'', js ''* a'', js ''middle'', js ''* b'']"
    by (simp add: format_defs)
  have h1: "\<not> includes_str ?s (js ''**'')" by (simp add: js_def)
  have h2: "list_ex (\<lambda>line. re_bullet False line \<noteq> None) (section_lines ?s)"
    unfolding sl by (simp add: format_defs)
  have runs: "prose_runs (\<lambda>line. re_bullet True line \<noteq> None) (section_lines ?s) =
      [[js ''Intro''], [js ''middle'']]"
    unfolding sl by (simp add: format_defs)
  have its: "List.map_filter (re_bullet True) (section_lines ?s) = [js ''a'', js ''b'']"
    unfolding sl by (simp add: format_defs List.map_filter_simps)
  from bullet_section_blocks [OF h1 h2]
  have "section_blocks (formatSection ?s) =
           map (\<lambda>run. Paragraph (join_sp run))
             (prose_runs (\<lambda>line. re_bullet True line \<noteq> None) (section_lines ?s))
           @ [BulletList (List.map_filter (re_bullet True) (section_lines ?s))]"
    by (rule conjunct1)
  then have "section_blocks (formatSection ?s) =
       [Paragraph (js ''Intro''), Paragraph (js ''middle''), BulletList [js ''a'', js ''b'']]"
    unfolding runs its by simp
  with h1 h2 show ?thesis by (intro conjI)
qed

end
